theory Spec2Isabelle
  imports Main
begin

section \<open>N-dimensional Mines: the data model\<close>

text \<open>
  The program is \<^verbatim>\<open>src/mines/lab.py\<close>. A game is a Python dictionary with the keys
  \<^verbatim>\<open>'dimensions'\<close>, \<^verbatim>\<open>'board'\<close>, \<^verbatim>\<open>'hidden'\<close> and \<^verbatim>\<open>'state'\<close>. The board and the
  hidden array are nested lists addressed by tuples of integers.

  A nested list is a tree: a scalar is a \<open>Leaf\<close>, a list is a \<open>Node\<close>. A board cell is the
  string \<^verbatim>\<open>'.'\<close> (a bomb) or an integer. Exceptions are values of type \<open>error\<close>;
  a function that can raise returns \<open>error + 'a\<close>, with \<open>Inl\<close> for the exception.
  Subscripting a leaf is a \<open>TypeError\<close>: the model does not follow Python into
  subscripting the one-character bomb string, which only a coordinate longer than the
  board is deep can reach.
\<close>

datatype error = IndexError | TypeError

datatype status = Ongoing | Defeat | Victory

datatype cell = Bomb | Count int

datatype 'a nd = Leaf 'a | Node "'a nd list"

type_synonym coord = "int list"

text \<open>\<^verbatim>\<open>xs[i]\<close> on a Python list: a negative index counts from the end.\<close>

definition subscript :: "'a list \<Rightarrow> int \<Rightarrow> error + 'a" where
  "subscript xs i =
     (if 0 \<le> i \<and> i < int (length xs) then Inr (xs ! nat i)
      else if - int (length xs) \<le> i \<and> i < 0 then Inr (xs ! nat (int (length xs) + i))
      else Inl IndexError)"

text \<open>\<^verbatim>\<open>xs[i] = v\<close> on a Python list, returning the updated list.\<close>

definition store :: "'a list \<Rightarrow> int \<Rightarrow> 'a \<Rightarrow> error + 'a list" where
  "store xs i v =
     (if 0 \<le> i \<and> i < int (length xs) then Inr (xs[nat i := v])
      else if - int (length xs) \<le> i \<and> i < 0 then Inr (xs[nat (int (length xs) + i) := v])
      else Inl IndexError)"

text \<open>\<^verbatim>\<open>range(n)\<close>: empty when \<open>n \<le> 0\<close>.\<close>

definition py_range :: "int \<Rightarrow> int list" where
  "py_range n = [0..n - 1]"

section \<open>Helper functions of the N-D implementation\<close>

text \<open>\<^verbatim>\<open>find_val(board, coordinate)\<close>: the empty coordinate addresses the array itself.\<close>

fun find_val :: "'a nd \<Rightarrow> coord \<Rightarrow> error + 'a nd" where
  "find_val b [] = Inr b"
| "find_val (Leaf x) (first # rest) = Inl TypeError"
| "find_val (Node xs) (first # rest) =
     (case subscript xs first of
        Inl e \<Rightarrow> Inl e
      | Inr sub \<Rightarrow> find_val sub rest)"

text \<open>
  \<^verbatim>\<open>replace(board, coordinate, value)\<close> mutates the nested list in place; the model returns
  the updated array. \<^verbatim>\<open>coordinate[0]\<close> raises on the empty tuple.
\<close>

fun replace :: "'a nd \<Rightarrow> coord \<Rightarrow> 'a nd \<Rightarrow> error + 'a nd" where
  "replace b [] v = Inl IndexError"
| "replace (Leaf x) (first # rest) v = Inl TypeError"
| "replace (Node xs) [first] v =
     (case store xs first v of
        Inl e \<Rightarrow> Inl e
      | Inr xs' \<Rightarrow> Inr (Node xs'))"
| "replace (Node xs) (first # rest) v =
     (case subscript xs first of
        Inl e \<Rightarrow> Inl e
      | Inr sub \<Rightarrow>
          (case replace sub rest v of
             Inl e \<Rightarrow> Inl e
           | Inr sub' \<Rightarrow>
               (case store xs first sub' of
                  Inl e \<Rightarrow> Inl e
                | Inr xs' \<Rightarrow> Inr (Node xs'))))"

text \<open>
  \<^verbatim>\<open>new_board(dimensions, value)\<close>: \<^verbatim>\<open>dimensions[0]\<close> raises on the empty tuple; with a
  first axis of length \<open>\<le> 0\<close> the loop body never runs.
\<close>

fun new_board :: "int list \<Rightarrow> 'a nd \<Rightarrow> error + 'a nd" where
  "new_board [] v = Inl IndexError"
| "new_board [d] v = Inr (Node (replicate (nat d) v))"
| "new_board (d # ds) v =
     (if d \<le> 0 then Inr (Node [])
      else (case new_board ds v of
              Inl e \<Rightarrow> Inl e
            | Inr sub \<Rightarrow> Inr (Node (replicate (nat d) sub))))"

text \<open>
  \<^verbatim>\<open>get_neighbors(dimensions, coordinate)\<close> is a generator. \<open>axis_loop\<close> is its
  \<^verbatim>\<open>for i in range(coordinate[0]-1, coordinate[0]+2)\<close>; \<open>single\<close> is
  \<^verbatim>\<open>len(coordinate) == 1\<close> and \<open>inner\<close> is the recursive generator on the remaining axes,
  which is consulted only for an index inside the bounds. Python's \<^verbatim>\<open>or\<close> tests \<^verbatim>\<open>i<0\<close>
  before it reads \<^verbatim>\<open>dimensions[0]\<close>. The generator either raises before its first
  element or not at all, so its run is a list or an error.
\<close>

fun axis_loop :: "int list \<Rightarrow> bool \<Rightarrow> error + coord list \<Rightarrow> int list \<Rightarrow> error + coord list" where
  "axis_loop dims single inner [] = Inr []"
| "axis_loop dims single inner (i # others) =
     (if i < 0 then axis_loop dims single inner others
      else (case dims of
              [] \<Rightarrow> Inl IndexError
            | d # _ \<Rightarrow>
                if i \<ge> d then axis_loop dims single inner others
                else if single then
                  (case axis_loop dims single inner others of
                     Inl e \<Rightarrow> Inl e
                   | Inr out \<Rightarrow> Inr ([i] # out))
                else
                  (case inner of
                     Inl e \<Rightarrow> Inl e
                   | Inr ns \<Rightarrow>
                       (case axis_loop dims single inner others of
                          Inl e \<Rightarrow> Inl e
                        | Inr out \<Rightarrow> Inr (map ((#) i) ns @ out)))))"

fun get_neighbors :: "int list \<Rightarrow> coord \<Rightarrow> error + coord list" where
  "get_neighbors dims [] = Inl IndexError"
| "get_neighbors dims (c # rest) =
     axis_loop dims (rest = []) (get_neighbors (drop 1 dims) rest) [c - 1, c, c + 1]"

text \<open>\<^verbatim>\<open>coords(dimensions)\<close>: the generator of all coordinates.\<close>

fun coords :: "int list \<Rightarrow> coord list" where
  "coords [] = [[]]"
| "coords (d # ds) = concat (map (\<lambda>i. map ((#) i) (coords ds)) (py_range d))"

text \<open>
  \<^verbatim>\<open>get_coordinates(dimensions)\<close> builds a Python set. The set is modelled as a
  duplicate-free list: \<^verbatim>\<open>coordinates.add\<close> is \<open>List.insert\<close>.
\<close>

fun get_coordinates :: "int list \<Rightarrow> error + coord list" where
  "get_coordinates [] = Inl IndexError"
| "get_coordinates [d] = Inr (fold (\<lambda>x acc. List.insert [x] acc) (py_range d) [])"
| "get_coordinates (d # ds) =
     (if d \<le> 0 then Inr []
      else (case get_coordinates ds of
              Inl e \<Rightarrow> Inl e
            | Inr ys \<Rightarrow>
                Inr (fold (\<lambda>x acc. fold (\<lambda>y acc'. List.insert (x # y) acc') ys acc)
                       (py_range d) [])))"

section \<open>The game state\<close>

record game =
  dimensions :: "int list"
  board :: "cell nd"
  hidden :: "bool nd"
  state :: status

text \<open>\<^verbatim>\<open>previous+1\<close> on a board value: an integer is incremented, anything else raises.\<close>

fun increment :: "cell nd \<Rightarrow> error + cell nd" where
  "increment (Leaf (Count n)) = Inr (Leaf (Count (n + 1)))"
| "increment (Leaf Bomb) = Inl TypeError"
| "increment (Node xs) = Inl TypeError"

text \<open>The inner loop of \<^verbatim>\<open>new_game_nd\<close>: \<^verbatim>\<open>for neighbor in bomb_neighbors\<close>.\<close>

fun count_loop :: "coord list \<Rightarrow> cell nd \<Rightarrow> coord list \<Rightarrow> error + cell nd" where
  "count_loop bombs b [] = Inr b"
| "count_loop bombs b (neighbor # others) =
     (if neighbor \<in> set bombs then count_loop bombs b others
      else (case find_val b neighbor of
              Inl e \<Rightarrow> Inl e
            | Inr previous \<Rightarrow>
                (case increment previous of
                   Inl e \<Rightarrow> Inl e
                 | Inr v \<Rightarrow>
                     (case replace b neighbor v of
                        Inl e \<Rightarrow> Inl e
                      | Inr b' \<Rightarrow> count_loop bombs b' others))))"

text \<open>The outer loop of \<^verbatim>\<open>new_game_nd\<close>: \<^verbatim>\<open>for bomb_coords in bombs\<close>.\<close>

fun bomb_loop :: "int list \<Rightarrow> coord list \<Rightarrow> cell nd \<Rightarrow> coord list \<Rightarrow> error + cell nd" where
  "bomb_loop dims bombs b [] = Inr b"
| "bomb_loop dims bombs b (bomb_coords # others) =
     (case get_neighbors dims bomb_coords of
        Inl e \<Rightarrow> Inl e
      | Inr bomb_neighbors \<Rightarrow>
          (case replace b bomb_coords (Leaf Bomb) of
             Inl e \<Rightarrow> Inl e
           | Inr b1 \<Rightarrow>
               (case count_loop bombs b1 bomb_neighbors of
                  Inl e \<Rightarrow> Inl e
                | Inr b2 \<Rightarrow> bomb_loop dims bombs b2 others)))"

definition new_game_nd :: "int list \<Rightarrow> coord list \<Rightarrow> error + game" where
  "new_game_nd dims bombs =
     (case new_board dims (Leaf (Count 0)) of
        Inl e \<Rightarrow> Inl e
      | Inr b0 \<Rightarrow>
          (case new_board dims (Leaf True) of
             Inl e \<Rightarrow> Inl e
           | Inr h0 \<Rightarrow>
               (case bomb_loop dims bombs b0 bombs of
                  Inl e \<Rightarrow> Inl e
                | Inr b \<Rightarrow>
                    Inr \<lparr>dimensions = dims, board = b, hidden = h0, state = Ongoing\<rparr>)))"

definition new_game_2d :: "int \<Rightarrow> int \<Rightarrow> coord list \<Rightarrow> error + game" where
  "new_game_2d num_rows num_cols bombs = new_game_nd [num_rows, num_cols] bombs"

section \<open>Digging\<close>

text \<open>The truth value Python gives to what \<^verbatim>\<open>find_val\<close> returns from the hidden array.\<close>

fun truthy :: "bool nd \<Rightarrow> bool" where
  "truthy (Leaf x) = x"
| "truthy (Node xs) = (xs \<noteq> [])"

text \<open>
  The nested function \<^verbatim>\<open>zero(game, coordinates)\<close> of \<^verbatim>\<open>dig_nd\<close> calls itself in a loop
  over the neighbours, on the game that the earlier calls have mutated. The first
  argument bounds the depth of the recursion; \<open>None\<close> means the bound was reached.
  \<open>zero_loop\<close> is \<^verbatim>\<open>for i in neighbors: total += zero(game, i)\<close>. The generator
  \<^verbatim>\<open>neighbors\<close> first runs at the loop, after the second \<^verbatim>\<open>replace\<close>.
\<close>

fun zero :: "nat \<Rightarrow> game \<Rightarrow> coord \<Rightarrow> (error + int \<times> game) option"
  and zero_loop :: "nat \<Rightarrow> game \<Rightarrow> int \<Rightarrow> coord list \<Rightarrow> (error + int \<times> game) option" where
  "zero 0 g c = None"
| "zero (Suc n) g c =
     (case find_val (hidden g) c of
        Inl e \<Rightarrow> Some (Inl e)
      | Inr h \<Rightarrow>
          if truthy h then Some (Inr (1, g))
          else (case replace (hidden g) c (Leaf True) of
                  Inl e \<Rightarrow> Some (Inl e)
                | Inr h1 \<Rightarrow>
                    (case find_val (board g) c of
                       Inl e \<Rightarrow> Some (Inl e)
                     | Inr uncovered \<Rightarrow>
                         if uncovered = Leaf (Count 0) then
                           (case replace h1 c (Leaf True) of
                              Inl e \<Rightarrow> Some (Inl e)
                            | Inr h2 \<Rightarrow>
                                (case get_neighbors (dimensions g) c of
                                   Inl e \<Rightarrow> Some (Inl e)
                                 | Inr neighbors \<Rightarrow> zero_loop n (g\<lparr>hidden := h2\<rparr>) 0 neighbors))
                         else Some (Inr (0, g\<lparr>hidden := h1\<rparr>)))))"
| "zero_loop n g tot [] = Some (Inr (tot, g))"
| "zero_loop n g tot (i # others) =
     (case zero n g i of
        None \<Rightarrow> None
      | Some (Inl e) \<Rightarrow> Some (Inl e)
      | Some (Inr (k, g')) \<Rightarrow> zero_loop n g' (tot + k) others)"

text \<open>
  \<^verbatim>\<open>dig_nd(game, coordinates)\<close> returns the integer and the mutated game. The board value
  is read before the state is tested. A negative count falls through to \<^verbatim>\<open>return val\<close>;
  a list compared with \<^verbatim>\<open>val>0\<close> raises.
\<close>

definition dig_nd :: "nat \<Rightarrow> game \<Rightarrow> coord \<Rightarrow> (error + int \<times> game) option" where
  "dig_nd fuel g coordinates =
     (case find_val (board g) coordinates of
        Inl e \<Rightarrow> Some (Inl e)
      | Inr val \<Rightarrow>
          if state g = Defeat \<or> state g = Victory then Some (Inr (0, g))
          else if val = Leaf Bomb then
            (case replace (hidden g) coordinates (Leaf False) of
               Inl e \<Rightarrow> Some (Inl e)
             | Inr h \<Rightarrow> Some (Inr (1, g\<lparr>hidden := h, state := Defeat\<rparr>)))
          else if val = Leaf (Count 0) then
            (case replace (hidden g) coordinates (Leaf False) of
               Inl e \<Rightarrow> Some (Inl e)
             | Inr h \<Rightarrow> zero fuel (g\<lparr>hidden := h\<rparr>) coordinates)
          else (case val of
                  Leaf (Count n) \<Rightarrow>
                    if n > 0 then Some (Inr (1, g\<lparr>state := Ongoing\<rparr>))
                    else Some (Inr (n, g))
                | _ \<Rightarrow> Some (Inl TypeError)))"

definition dig_2d :: "nat \<Rightarrow> game \<Rightarrow> int \<Rightarrow> int \<Rightarrow> (error + int \<times> game) option" where
  "dig_2d fuel g row col = dig_nd fuel g [row, col]"

section \<open>Well-formed games and the fixtures of the doctests\<close>

text \<open>
  A nested list has the shape \<open>dims\<close> when every list at depth \<open>k\<close> has length
  \<open>dims ! k\<close> and the leaves sit exactly at depth \<open>length dims\<close>. A coordinate is valid
  when it has one component per axis, each in \<open>[0, dims ! k)\<close>.
\<close>

fun shaped :: "int list \<Rightarrow> 'a nd \<Rightarrow> bool" where
  "shaped [] (Leaf x) = True"
| "shaped (d # ds) (Node xs) = (int (length xs) = d \<and> list_all (shaped ds) xs)"
| "shaped [] (Node xs) = False"
| "shaped (d # ds) (Leaf x) = False"

definition valid_coord :: "int list \<Rightarrow> coord \<Rightarrow> bool" where
  "valid_coord dims c = list_all2 (\<lambda>d x. 0 \<le> x \<and> x < d) dims c"

text \<open>The parts of a game that \<^verbatim>\<open>zero\<close> never assigns.\<close>

definition same_frame :: "game \<Rightarrow> game \<Rightarrow> bool" where
  "same_frame g g' =
     (state g' = state g \<and> board g' = board g \<and> dimensions g' = dimensions g)"

text \<open>
  The winning condition of the docstring of \<^verbatim>\<open>dig_nd\<close>: all safe squares and no bombs
  are revealed.
\<close>

definition safe_revealed_bombs_hidden :: "game \<Rightarrow> bool" where
  "safe_revealed_bombs_hidden g =
     list_all (\<lambda>c. case find_val (board g) c of
                      Inr (Leaf Bomb) \<Rightarrow> find_val (hidden g) c = Inr (Leaf True)
                    | _ \<Rightarrow> find_val (hidden g) c = Inr (Leaf False))
       (coords (dimensions g))"

text \<open>
  The 2 by 4 board of the doctests, \<^verbatim>\<open>[['.', 3, 1, 0], ['.', '.', 1, 0]]\<close>, with a
  hidden array and a state to choose.
\<close>

definition doctest_board :: "cell nd" where
  "doctest_board =
     Node [Node [Leaf Bomb, Leaf (Count 3), Leaf (Count 1), Leaf (Count 0)],
           Node [Leaf Bomb, Leaf Bomb, Leaf (Count 1), Leaf (Count 0)]]"

definition doctest_game :: "bool nd \<Rightarrow> status \<Rightarrow> game" where
  "doctest_game h st = \<lparr>dimensions = [2, 4], board = doctest_board, hidden = h, state = st\<rparr>"

text \<open>The hidden array of a new game.\<close>

definition hidden_fresh :: "bool nd" where
  "hidden_fresh = Node [Node [Leaf True, Leaf True, Leaf True, Leaf True],
                        Node [Leaf True, Leaf True, Leaf True, Leaf True]]"

text \<open>The hidden array of the doctests of \<^verbatim>\<open>dig_2d\<close>.\<close>

definition hidden_dig :: "bool nd" where
  "hidden_dig = Node [Node [Leaf True, Leaf False, Leaf True, Leaf True],
                      Node [Leaf True, Leaf True, Leaf True, Leaf True]]"

text \<open>The hidden array of the first doctest of \<^verbatim>\<open>render_2d_locations\<close>.\<close>

definition hidden_render :: "bool nd" where
  "hidden_render = Node [Node [Leaf True, Leaf False, Leaf False, Leaf True],
                         Node [Leaf True, Leaf True, Leaf False, Leaf True]]"

text \<open>The hidden array that the first doctest of \<^verbatim>\<open>dig_2d\<close> expects after the dig.\<close>

definition hidden_won :: "bool nd" where
  "hidden_won = Node [Node [Leaf True, Leaf False, Leaf False, Leaf False],
                      Node [Leaf True, Leaf True, Leaf False, Leaf False]]"

text \<open>The fresh hidden array after \<^verbatim>\<open>replace(game['hidden'], (0, 3), False)\<close>.\<close>

definition hidden_corner :: "bool nd" where
  "hidden_corner = Node [Node [Leaf True, Leaf True, Leaf True, Leaf False],
                         Node [Leaf True, Leaf True, Leaf True, Leaf True]]"

text \<open>
  Two coordinates are near when they have the same length and differ by at most 1 on
  every axis.
\<close>

definition near :: "coord \<Rightarrow> coord \<Rightarrow> bool" where
  "near x c = list_all2 (\<lambda>a b. \<bar>a - b\<bar> \<le> 1) x c"

text \<open>Every index of a list put in front of every coordinate of another, in order.\<close>

definition prepend_all :: "int list \<Rightarrow> coord list \<Rightarrow> coord list" where
  "prepend_all is cs = concat (map (\<lambda>i. map ((#) i) cs) is)"

text \<open>
  An array reads as \<open>f\<close> when it has the shape of the dimensions and holds the leaf
  \<open>f x\<close> at every valid coordinate \<open>x\<close>.
\<close>

definition reads_as :: "int list \<Rightarrow> 'a nd \<Rightarrow> (coord \<Rightarrow> 'a) \<Rightarrow> bool" where
  "reads_as dims b f =
     (shaped dims b \<and> (\<forall>x. valid_coord dims x \<longrightarrow> find_val b x = Inr (Leaf (f x))))"

text \<open>What \<^verbatim>\<open>previous+1\<close> makes of a count.\<close>

fun succ_cell :: "cell \<Rightarrow> cell" where
  "succ_cell (Count k) = Count (k + 1)"
| "succ_cell Bomb = Bomb"

text \<open>
  The board of \<^verbatim>\<open>new_game_nd\<close> once the bombs of the list \<open>placed\<close> have been handled:
  a handled bomb is marked, a bomb still to come holds 0, and any other cell counts the
  handled bombs near it.
\<close>

definition layout :: "coord list \<Rightarrow> coord list \<Rightarrow> coord \<Rightarrow> cell" where
  "layout bombs placed x =
     (if x \<in> set placed then Bomb
      else Count (if x \<in> set bombs then 0 else int (length (filter (near x) placed))))"

section \<open>Rendering, on a store of list objects\<close>

text \<open>
  The render functions build new lists and assign into them, and
  \<^verbatim>\<open>render_2d_locations\<close> starts from a shallow copy of the board whose rows are still the
  rows of the game. Whether the game is changed therefore depends on which list object
  each assignment reaches, and the render functions are modelled on a store: a value is
  an integer, a string, a boolean or a reference to a list object, and the store is the
  list of all list objects, a reference being an index into it. A new list is appended
  to the store. The dictionary \<^verbatim>\<open>game\<close> is only read by these functions, so it is passed
  as a record of values. A reference outside the store does not occur in Python; the
  model raises \<open>TypeError\<close> on it.
\<close>

datatype pyval = PInt int | PStr string | PBool bool | PRef nat

type_synonym heap = "pyval list list"

text \<open>\<^verbatim>\<open>x[i]\<close> and \<^verbatim>\<open>x[i] = v\<close> on any value: a string can be read, not assigned.\<close>

fun h_subscript :: "heap \<Rightarrow> pyval \<Rightarrow> int \<Rightarrow> error + pyval" where
  "h_subscript h (PRef a) i = (if a < length h then subscript (h ! a) i else Inl TypeError)"
| "h_subscript h (PStr s) i =
     (case subscript s i of Inl e \<Rightarrow> Inl e | Inr c \<Rightarrow> Inr (PStr [c]))"
| "h_subscript h (PInt n) i = Inl TypeError"
| "h_subscript h (PBool b) i = Inl TypeError"

fun h_store :: "heap \<Rightarrow> pyval \<Rightarrow> int \<Rightarrow> pyval \<Rightarrow> error + heap" where
  "h_store h (PRef a) i v =
     (if a < length h then
        (case store (h ! a) i v of Inl e \<Rightarrow> Inl e | Inr xs \<Rightarrow> Inr (h[a := xs]))
      else Inl TypeError)"
| "h_store h (PStr s) i v = Inl TypeError"
| "h_store h (PInt n) i v = Inl TypeError"
| "h_store h (PBool b) i v = Inl TypeError"

text \<open>\<^verbatim>\<open>find_val\<close> and \<^verbatim>\<open>replace\<close> again, on the store.\<close>

fun find_val_h :: "heap \<Rightarrow> pyval \<Rightarrow> coord \<Rightarrow> error + pyval" where
  "find_val_h h b [] = Inr b"
| "find_val_h h b (first # rest) =
     (case h_subscript h b first of
        Inl e \<Rightarrow> Inl e
      | Inr sub \<Rightarrow> find_val_h h sub rest)"

fun replace_h :: "heap \<Rightarrow> pyval \<Rightarrow> coord \<Rightarrow> pyval \<Rightarrow> error + heap" where
  "replace_h h b [] v = Inl IndexError"
| "replace_h h b [first] v = h_store h b first v"
| "replace_h h b (first # rest) v =
     (case h_subscript h b first of
        Inl e \<Rightarrow> Inl e
      | Inr sub \<Rightarrow> replace_h h sub rest v)"

text \<open>
  \<^verbatim>\<open>new_board\<close> on the store. The list \<^verbatim>\<open>board = []\<close> is created first; \<open>fill_h\<close> is the
  loop that appends one freshly built sub-board per turn.
\<close>

fun new_board_h :: "heap \<Rightarrow> int list \<Rightarrow> pyval \<Rightarrow> error + pyval \<times> heap"
  and fill_h :: "heap \<Rightarrow> nat \<Rightarrow> int list \<Rightarrow> pyval \<Rightarrow> nat \<Rightarrow> error + heap" where
  "new_board_h h [] v = Inl IndexError"
| "new_board_h h [d] v = Inr (PRef (length h), h @ [replicate (nat d) v])"
| "new_board_h h (d # d' # ds) v =
     (case fill_h (h @ [[]]) (length h) (d' # ds) v (nat d) of
        Inl e \<Rightarrow> Inl e
      | Inr h' \<Rightarrow> Inr (PRef (length h), h'))"
| "fill_h h a ds v 0 = Inr h"
| "fill_h h a ds v (Suc n) =
     (case new_board_h h ds v of
        Inl e \<Rightarrow> Inl e
      | Inr (r, h1) \<Rightarrow> fill_h (h1[a := h1 ! a @ [r]]) a ds v n)"

text \<open>
  \<^verbatim>\<open>str(x)\<close>. The text Python prints for a list, which the render functions reach only
  on a board that is not shaped by its dimensions, is the parameter \<open>repr\<close>.
\<close>

fun digits :: "nat \<Rightarrow> string" where
  "digits n = (if n < 10 then [char_of (48 + n)] else digits (n div 10) @ [char_of (48 + n mod 10)])"

type_synonym list_repr = "heap \<Rightarrow> nat \<Rightarrow> string"

fun py_str :: "list_repr \<Rightarrow> heap \<Rightarrow> pyval \<Rightarrow> string" where
  "py_str repr h (PInt n) = (if n < 0 then CHR ''-'' # digits (nat (- n)) else digits (nat n))"
| "py_str repr h (PStr s) = s"
| "py_str repr h (PBool b) = (if b then ''True'' else ''False'')"
| "py_str repr h (PRef a) = repr h a"

text \<open>The truth value of a value, \<^verbatim>\<open>x == True\<close>, and the elements a \<^verbatim>\<open>for\<close> or \<^verbatim>\<open>map\<close> visits.\<close>

fun py_truthy :: "heap \<Rightarrow> pyval \<Rightarrow> bool" where
  "py_truthy h (PInt n) = (n \<noteq> 0)"
| "py_truthy h (PStr s) = (s \<noteq> [])"
| "py_truthy h (PBool b) = b"
| "py_truthy h (PRef a) = (h ! a \<noteq> [])"

fun eq_True :: "pyval \<Rightarrow> bool" where
  "eq_True (PBool b) = b"
| "eq_True (PInt n) = (n = 1)"
| "eq_True (PStr s) = False"
| "eq_True (PRef a) = False"

fun iterate :: "heap \<Rightarrow> pyval \<Rightarrow> error + pyval list" where
  "iterate h (PRef a) = (if a < length h then Inr (h ! a) else Inl TypeError)"
| "iterate h (PStr s) = Inr (map (\<lambda>c. PStr [c]) s)"
| "iterate h (PInt n) = Inl TypeError"
| "iterate h (PBool b) = Inl TypeError"

record hgame =
  h_dimensions :: "int list"
  h_board :: pyval
  h_hidden :: pyval
  h_state :: status

text \<open>
  \<^verbatim>\<open>render_nd(game, xray)\<close>; \<open>render_nd_loop\<close> is \<^verbatim>\<open>for i in all_coordinates\<close>. With a
  boolean \<^verbatim>\<open>xray\<close> exactly one of \<^verbatim>\<open>if xray\<close> and \<^verbatim>\<open>if xray is False\<close> runs.
\<close>

fun render_nd_loop ::
  "list_repr \<Rightarrow> hgame \<Rightarrow> bool \<Rightarrow> pyval \<Rightarrow> heap \<Rightarrow> coord list \<Rightarrow> error + heap" where
  "render_nd_loop repr g xray final h [] = Inr h"
| "render_nd_loop repr g xray final h (i # others) =
     (case find_val_h h (h_board g) i of
        Inl e \<Rightarrow> Inl e
      | Inr v \<Rightarrow>
          (case (if xray then
                   replace_h h final i
                     (PStr (if py_str repr h v = ''0'' then '' '' else py_str repr h v))
                 else
                   (case find_val_h h (h_hidden g) i of
                      Inl e \<Rightarrow> Inl e
                    | Inr hidden_value \<Rightarrow>
                        replace_h h final i
                          (PStr (if eq_True hidden_value then ''_''
                                 else if py_str repr h v = ''0'' then '' ''
                                 else py_str repr h v)))) of
             Inl e \<Rightarrow> Inl e
           | Inr h' \<Rightarrow> render_nd_loop repr g xray final h' others))"

definition render_nd_h :: "list_repr \<Rightarrow> heap \<Rightarrow> hgame \<Rightarrow> bool \<Rightarrow> error + pyval \<times> heap" where
  "render_nd_h repr h g xray =
     (case new_board_h h (h_dimensions g) (PStr ''0'') of
        Inl e \<Rightarrow> Inl e
      | Inr (final, h1) \<Rightarrow>
          (case get_coordinates (h_dimensions g) of
             Inl e \<Rightarrow> Inl e
           | Inr all_coordinates \<Rightarrow>
               (case render_nd_loop repr g xray final h1 all_coordinates of
                  Inl e \<Rightarrow> Inl e
                | Inr h2 \<Rightarrow> Inr (final, h2))))"

text \<open>\<^verbatim>\<open>x[row][col]\<close> and \<^verbatim>\<open>x[row][col] = v\<close>.\<close>

definition get2 :: "heap \<Rightarrow> pyval \<Rightarrow> int \<Rightarrow> int \<Rightarrow> error + pyval" where
  "get2 h x row col =
     (case h_subscript h x row of Inl e \<Rightarrow> Inl e | Inr r \<Rightarrow> h_subscript h r col)"

definition set2 :: "heap \<Rightarrow> pyval \<Rightarrow> int \<Rightarrow> int \<Rightarrow> pyval \<Rightarrow> error + heap" where
  "set2 h x row col v =
     (case h_subscript h x row of Inl e \<Rightarrow> Inl e | Inr r \<Rightarrow> h_store h r col v)"

text \<open>
  \<^verbatim>\<open>render_2d_locations(game, xray)\<close>: \<open>shallow_copy\<close> is \<^verbatim>\<open>game['board'][:]\<close>,
  \<open>row_loop\<close> and \<open>col_loop\<close> are the two nested loops. \<^verbatim>\<open>dimensions[1]\<close> is read
  in each turn of the outer loop, after the row has been replaced by its list of strings.
\<close>

fun col_loop :: "hgame \<Rightarrow> bool \<Rightarrow> pyval \<Rightarrow> int \<Rightarrow> heap \<Rightarrow> int list \<Rightarrow> error + heap" where
  "col_loop g xray b row h [] = Inr h"
| "col_loop g xray b row h (col # others) =
     (case (if xray then
              (case get2 h b row col of
                 Inl e \<Rightarrow> Inl e
               | Inr v \<Rightarrow> if v = PStr ''0'' then set2 h b row col (PStr '' '') else Inr h)
            else
              (case get2 h (h_hidden g) row col of
                 Inl e \<Rightarrow> Inl e
               | Inr hv \<Rightarrow>
                   if py_truthy h hv then set2 h b row col (PStr ''_'')
                   else (case get2 h b row col of
                           Inl e \<Rightarrow> Inl e
                         | Inr v \<Rightarrow>
                             if v = PStr ''0'' then set2 h b row col (PStr '' '') else Inr h))) of
        Inl e \<Rightarrow> Inl e
      | Inr h' \<Rightarrow> col_loop g xray b row h' others)"

fun row_loop :: "list_repr \<Rightarrow> hgame \<Rightarrow> bool \<Rightarrow> pyval \<Rightarrow> heap \<Rightarrow> int list \<Rightarrow> error + heap" where
  "row_loop repr g xray b h [] = Inr h"
| "row_loop repr g xray b h (row # others) =
     (case h_subscript h b row of
        Inl e \<Rightarrow> Inl e
      | Inr r \<Rightarrow>
          (case iterate h r of
             Inl e \<Rightarrow> Inl e
           | Inr elems \<Rightarrow>
               (case h_store (h @ [map (\<lambda>x. PStr (py_str repr h x)) elems]) b row
                       (PRef (length h)) of
                  Inl e \<Rightarrow> Inl e
                | Inr h2 \<Rightarrow>
                    (case h_dimensions g of
                       d0 # d1 # _ \<Rightarrow>
                         (case col_loop g xray b row h2 (py_range d1) of
                            Inl e \<Rightarrow> Inl e
                          | Inr h3 \<Rightarrow> row_loop repr g xray b h3 others)
                     | _ \<Rightarrow> Inl IndexError))))"

fun shallow_copy :: "heap \<Rightarrow> pyval \<Rightarrow> error + pyval \<times> heap" where
  "shallow_copy h (PRef a) =
     (if a < length h then Inr (PRef (length h), h @ [h ! a]) else Inl TypeError)"
| "shallow_copy h (PStr s) = Inr (PStr s, h)"
| "shallow_copy h (PInt n) = Inl TypeError"
| "shallow_copy h (PBool b) = Inl TypeError"

definition render_2d_locations_h ::
  "list_repr \<Rightarrow> heap \<Rightarrow> hgame \<Rightarrow> bool \<Rightarrow> error + pyval \<times> heap" where
  "render_2d_locations_h repr h g xray =
     (case shallow_copy h (h_board g) of
        Inl e \<Rightarrow> Inl e
      | Inr (b, h1) \<Rightarrow>
          (case h_dimensions g of
             [] \<Rightarrow> Inl IndexError
           | d0 # _ \<Rightarrow>
               (case row_loop repr g xray b h1 (py_range d0) of
                  Inl e \<Rightarrow> Inl e
                | Inr h2 \<Rightarrow> Inr (b, h2))))"

text \<open>\<^verbatim>\<open>render_2d_board(game, xray)\<close>; \<open>join\<close> is \<^verbatim>\<open>"".join(d[row])\<close>.\<close>

fun join :: "heap \<Rightarrow> pyval \<Rightarrow> error + string" where
  "join h r =
     (case iterate h r of
        Inl e \<Rightarrow> Inl e
      | Inr elems \<Rightarrow>
          if list_all (\<lambda>x. case x of PStr s \<Rightarrow> True | _ \<Rightarrow> False) elems
          then Inr (concat (map (\<lambda>x. case x of PStr s \<Rightarrow> s | _ \<Rightarrow> []) elems))
          else Inl TypeError)"

fun art_loop :: "heap \<Rightarrow> pyval \<Rightarrow> int \<Rightarrow> string \<Rightarrow> int list \<Rightarrow> error + string" where
  "art_loop h d d0 art [] = Inr art"
| "art_loop h d d0 art (row # others) =
     (case h_subscript h d row of
        Inl e \<Rightarrow> Inl e
      | Inr r \<Rightarrow>
          (case join h r of
             Inl e \<Rightarrow> Inl e
           | Inr s \<Rightarrow>
               art_loop h d d0 (art @ s @ (if row \<noteq> d0 - 1 then [CHR 0x0A] else [])) others))"

definition render_2d_board_h ::
  "list_repr \<Rightarrow> heap \<Rightarrow> hgame \<Rightarrow> bool \<Rightarrow> error + string \<times> heap" where
  "render_2d_board_h repr h g xray =
     (case render_2d_locations_h repr h g xray of
        Inl e \<Rightarrow> Inl e
      | Inr (d, h1) \<Rightarrow>
          (case h_dimensions g of
             [] \<Rightarrow> Inl IndexError
           | d0 # _ \<Rightarrow>
               (case art_loop h1 d d0 [] (py_range d0) of
                  Inl e \<Rightarrow> Inl e
                | Inr art \<Rightarrow> Inr (art, h1))))"

text \<open>
  A value is fresh for \<open>n\<close> when it is not a reference below \<open>n\<close>; the region from \<open>n\<close>
  on is closed when its lists hold fresh values only. A store is well formed when every
  reference in it is inside it, and a value is live when it is not a reference outside.
\<close>

definition fresh_val :: "nat \<Rightarrow> pyval \<Rightarrow> bool" where
  "fresh_val n v = (case v of PRef a \<Rightarrow> n \<le> a | _ \<Rightarrow> True)"

definition region_closed :: "nat \<Rightarrow> heap \<Rightarrow> bool" where
  "region_closed n h = (\<forall>a. n \<le> a \<and> a < length h \<longrightarrow> list_all (fresh_val n) (h ! a))"

definition heap_ok :: "heap \<Rightarrow> bool" where
  "heap_ok h =
     list_all (list_all (\<lambda>x. case x of PRef b \<Rightarrow> b < length h | _ \<Rightarrow> True)) h"

definition live :: "heap \<Rightarrow> pyval \<Rightarrow> bool" where
  "live h v = (case v of PRef a \<Rightarrow> a < length h | _ \<Rightarrow> True)"

text \<open>
  The game is unchanged from store \<open>h\<close> to store \<open>h'\<close> when every list object of \<open>h\<close> is
  the same in \<open>h'\<close>, and the board and the hidden array read the same at every
  coordinate.
\<close>

definition game_unchanged :: "heap \<Rightarrow> heap \<Rightarrow> hgame \<Rightarrow> bool" where
  "game_unchanged h h' g =
     (take (length h) h' = h
      \<and> (\<forall>c. find_val_h h' (h_board g) c = find_val_h h (h_board g) c)
      \<and> (\<forall>c. find_val_h h' (h_hidden g) c = find_val_h h (h_hidden g) c))"

text \<open>The game of the first doctest of \<^verbatim>\<open>render_2d_locations\<close>, as a store.\<close>

definition doctest_heap :: heap where
  "doctest_heap =
     [[PStr ''.'', PInt 3, PInt 1, PInt 0],
      [PStr ''.'', PStr ''.'', PInt 1, PInt 0],
      [PRef 0, PRef 1],
      [PBool True, PBool False, PBool False, PBool True],
      [PBool True, PBool True, PBool False, PBool True],
      [PRef 3, PRef 4]]"

definition doctest_hgame :: hgame where
  "doctest_hgame = \<lparr>h_dimensions = [2, 4], h_board = PRef 2, h_hidden = PRef 5, h_state = Ongoing\<rparr>"

text \<open>The lists that the doctest expects, appended to the store by the two renders.\<close>

definition rendered_2d :: heap where
  "rendered_2d =
     doctest_heap @
     [[PRef 7, PRef 8],
      [PStr ''_'', PStr ''3'', PStr ''1'', PStr ''_''],
      [PStr ''_'', PStr ''_'', PStr ''1'', PStr ''_'']]"

section \<open>Reading and writing a shaped array\<close>

lemma subscript_inside:
  "0 \<le> i \<Longrightarrow> i < int (length xs) \<Longrightarrow> subscript xs i = Inr (xs ! nat i)"
  by (simp add: subscript_def)

lemma store_inside:
  "0 \<le> i \<Longrightarrow> i < int (length xs) \<Longrightarrow> store xs i v = Inr (xs[nat i := v])"
  by (simp add: store_def)

lemma valid_coord_Nil [simp]: "valid_coord [] c = (c = [])"
  by (simp add: valid_coord_def)

lemma valid_coord_Cons:
  "valid_coord (d # ds) c = (\<exists>x cs. c = x # cs \<and> 0 \<le> x \<and> x < d \<and> valid_coord ds cs)"
  by (auto simp: valid_coord_def list_all2_Cons1)

lemma shaped_Cons:
  "shaped (d # ds) b = (\<exists>xs. b = Node xs \<and> int (length xs) = d \<and> (\<forall>x \<in> set xs. shaped ds x))"
  by (cases b) (auto simp: list_all_iff)

lemma shaped_Nil: "shaped [] b = (\<exists>x. b = Leaf x)"
  by (cases b) auto

text \<open>A valid coordinate of a shaped array addresses a leaf.\<close>

lemma find_val_shaped:
  "shaped dims b \<Longrightarrow> valid_coord dims c \<Longrightarrow> \<exists>x. find_val b c = Inr (Leaf x)"
proof (induction dims arbitrary: b c)
  case Nil
  then show ?case by (auto simp: shaped_Nil)
next
  case (Cons d ds)
  from Cons.prems(1) obtain xs where b: "b = Node xs" and len: "int (length xs) = d"
    and sub: "\<forall>x \<in> set xs. shaped ds x"
    by (auto simp: shaped_Cons)
  from Cons.prems(2) obtain x cs where c: "c = x # cs" and x: "0 \<le> x" "x < d"
    and cs: "valid_coord ds cs"
    by (auto simp: valid_coord_Cons)
  from x len have "nat x < length xs" by linarith
  then have "shaped ds (xs ! nat x)" using sub by simp
  from Cons.IH [OF this cs] obtain y where "find_val (xs ! nat x) cs = Inr (Leaf y)" ..
  then show ?case using b c x len by (simp add: subscript_inside)
qed

text \<open>
  Writing a leaf at a valid coordinate of a shaped array succeeds, keeps the shape, is
  read back, and changes no other valid coordinate.
\<close>

lemma replace_shaped:
  "shaped dims b \<Longrightarrow> valid_coord dims c \<Longrightarrow> dims \<noteq> [] \<Longrightarrow>
   \<exists>b'. replace b c (Leaf v) = Inr b' \<and> shaped dims b' \<and> find_val b' c = Inr (Leaf v) \<and>
     (\<forall>c'. valid_coord dims c' \<longrightarrow> c' \<noteq> c \<longrightarrow> find_val b' c' = find_val b c')"
proof (induction dims arbitrary: b c)
  case Nil
  then show ?case by simp
next
  case (Cons d ds)
  from Cons.prems(1) obtain xs where b: "b = Node xs" and len: "int (length xs) = d"
    and sub: "\<forall>x \<in> set xs. shaped ds x"
    by (auto simp: shaped_Cons)
  from Cons.prems(2) obtain x cs where c: "c = x # cs" and x: "0 \<le> x" "x < d"
    and cs: "valid_coord ds cs"
    by (auto simp: valid_coord_Cons)
  from x len have nx: "nat x < length xs" by linarith
  then have shx: "shaped ds (xs ! nat x)" using sub by simp
  show ?case
  proof (cases ds)
    case Nil
    with cs have cs0: "cs = []" by simp
    have r: "replace b c (Leaf v) = Inr (Node (xs[nat x := Leaf v]))"
      using b c cs0 x len by (simp add: store_inside)
    have sh: "shaped (d # ds) (Node (xs[nat x := Leaf v]))"
      using len sub Nil by (auto simp: list_all_iff dest!: set_update_subset_insert [THEN subsetD])
    have fv: "find_val (Node (xs[nat x := Leaf v])) c = Inr (Leaf v)"
      using c cs0 x len nx by (simp add: subscript_inside)
    have other: "find_val (Node (xs[nat x := Leaf v])) c' = find_val b c'"
      if "valid_coord (d # ds) c'" "c' \<noteq> c" for c'
    proof -
      from that(1) Nil obtain y where c': "c' = [y]" and y: "0 \<le> y" "y < d"
        by (auto simp: valid_coord_Cons)
      with that(2) c cs0 have "y \<noteq> x" by simp
      then have "nat y \<noteq> nat x" using x y by linarith
      then show ?thesis using b c' y len by (simp add: subscript_inside)
    qed
    from r sh fv other show ?thesis by blast
  next
    case (Cons d' ds')
    then have "ds \<noteq> []" by simp
    from Cons.IH [OF shx cs this] obtain s' where
      s': "replace (xs ! nat x) cs (Leaf v) = Inr s'" and shs': "shaped ds s'"
      and fs': "find_val s' cs = Inr (Leaf v)"
      and os': "\<forall>c'. valid_coord ds c' \<longrightarrow> c' \<noteq> cs \<longrightarrow> find_val s' c' = find_val (xs ! nat x) c'"
      by blast
    from cs Cons obtain z zs where czs: "cs = z # zs" by (auto simp: valid_coord_Cons)
    have r: "replace b c (Leaf v) = Inr (Node (xs[nat x := s']))"
      using b c czs x len s' by (simp add: store_inside subscript_inside)
    have sh: "shaped (d # ds) (Node (xs[nat x := s']))"
      using len sub shs' by (auto simp: list_all_iff dest!: set_update_subset_insert [THEN subsetD])
    have fv: "find_val (Node (xs[nat x := s'])) c = Inr (Leaf v)"
      using c x len nx fs' by (simp add: subscript_inside)
    have other: "find_val (Node (xs[nat x := s'])) c' = find_val b c'"
      if "valid_coord (d # ds) c'" "c' \<noteq> c" for c'
    proof -
      from that(1) obtain y ys where c': "c' = y # ys" and y: "0 \<le> y" "y < d"
        and ys: "valid_coord ds ys"
        by (auto simp: valid_coord_Cons)
      show ?thesis
      proof (cases "y = x")
        case True
        with that(2) c c' have "ys \<noteq> cs" by simp
        with os' ys have "find_val s' ys = find_val (xs ! nat x) ys" by simp
        then show ?thesis using True b c' x len nx by (simp add: subscript_inside)
      next
        case False
        then have "nat y \<noteq> nat x" using x y by linarith
        then show ?thesis using b c' y len by (simp add: subscript_inside)
      qed
    qed
    from r sh fv other show ?thesis by blast
  qed
qed

section \<open>Digging in a finished game, and digging a bomb\<close>

text \<open>
  Claim C5. In a game whose state is Defeat or Victory, whose board has the shape of its
  dimensions, a dig at any valid coordinate returns 0 and the game it leaves is the game
  it was given: board, hidden array, dimensions and state are all unchanged.
\<close>

theorem dig_nd_finished_game:
  assumes "state g = Defeat \<or> state g = Victory"
    and "shaped (dimensions g) (board g)"
    and "valid_coord (dimensions g) c"
  shows "dig_nd fuel g c = Some (Inr (0, g))"
proof -
  from find_val_shaped [OF assms(2,3)] obtain x where "find_val (board g) c = Inr (Leaf x)" ..
  with assms(1) show ?thesis by (simp add: dig_nd_def)
qed

theorem dig_nd_finished_game_witness:
  "(state (doctest_game hidden_dig Defeat) = Defeat \<or> state (doctest_game hidden_dig Defeat) = Victory)
   \<and> shaped (dimensions (doctest_game hidden_dig Defeat)) (board (doctest_game hidden_dig Defeat))
   \<and> valid_coord (dimensions (doctest_game hidden_dig Defeat)) [0, 3]
   \<and> dig_nd 0 (doctest_game hidden_dig Defeat) [0, 3] = Some (Inr (0, doctest_game hidden_dig Defeat))"
proof -
  have st: "state (doctest_game hidden_dig Defeat) = Defeat \<or> state (doctest_game hidden_dig Defeat) = Victory"
    by (simp add: doctest_game_def)
  have sh: "shaped (dimensions (doctest_game hidden_dig Defeat)) (board (doctest_game hidden_dig Defeat))"
    by (simp add: doctest_game_def doctest_board_def)
  have vc: "valid_coord (dimensions (doctest_game hidden_dig Defeat)) [0, 3]"
    by (simp add: doctest_game_def valid_coord_def)
  from st sh vc dig_nd_finished_game [OF st sh vc, of 0] show ?thesis by blast
qed

text \<open>
  Claim C6. In an ongoing game with a non-empty dimensions vector, whose board and hidden
  array have the shape of the dimensions, a dig at a valid coordinate that holds the bomb
  marker returns 1; the game it leaves differs from the given one only in the hidden
  array and the state: the state is Defeat, the dug cell of the hidden array is False,
  the array keeps its shape and every other valid coordinate reads as before.
\<close>

theorem dig_nd_bomb:
  assumes "state g = Ongoing"
    and "dimensions g \<noteq> []"
    and "shaped (dimensions g) (board g)"
    and "shaped (dimensions g) (hidden g)"
    and "valid_coord (dimensions g) c"
    and "find_val (board g) c = Inr (Leaf Bomb)"
  shows "\<exists>h. dig_nd fuel g c = Some (Inr (1, g\<lparr>hidden := h, state := Defeat\<rparr>))
           \<and> find_val h c = Inr (Leaf False)
           \<and> shaped (dimensions g) h
           \<and> (\<forall>c'. valid_coord (dimensions g) c' \<longrightarrow> c' \<noteq> c
                  \<longrightarrow> find_val h c' = find_val (hidden g) c')"
proof -
  from replace_shaped [OF assms(4,5,2), of False] obtain h where
    h: "replace (hidden g) c (Leaf False) = Inr h" and rest: "shaped (dimensions g) h"
      "find_val h c = Inr (Leaf False)"
      "\<forall>c'. valid_coord (dimensions g) c' \<longrightarrow> c' \<noteq> c \<longrightarrow> find_val h c' = find_val (hidden g) c'"
    by blast
  from assms(1,6) h have "dig_nd fuel g c = Some (Inr (1, g\<lparr>hidden := h, state := Defeat\<rparr>))"
    by (simp add: dig_nd_def)
  with rest show ?thesis by blast
qed

theorem dig_nd_bomb_witness:
  "state (doctest_game hidden_dig Ongoing) = Ongoing
   \<and> dimensions (doctest_game hidden_dig Ongoing) \<noteq> []
   \<and> shaped (dimensions (doctest_game hidden_dig Ongoing)) (board (doctest_game hidden_dig Ongoing))
   \<and> shaped (dimensions (doctest_game hidden_dig Ongoing)) (hidden (doctest_game hidden_dig Ongoing))
   \<and> valid_coord (dimensions (doctest_game hidden_dig Ongoing)) [0, 0]
   \<and> find_val (board (doctest_game hidden_dig Ongoing)) [0, 0] = Inr (Leaf Bomb)
   \<and> (\<exists>h. dig_nd 0 (doctest_game hidden_dig Ongoing) [0, 0]
             = Some (Inr (1, (doctest_game hidden_dig Ongoing)\<lparr>hidden := h, state := Defeat\<rparr>))
          \<and> find_val h [0, 0] = Inr (Leaf False)
          \<and> shaped (dimensions (doctest_game hidden_dig Ongoing)) h
          \<and> (\<forall>c'. valid_coord (dimensions (doctest_game hidden_dig Ongoing)) c' \<longrightarrow> c' \<noteq> [0, 0]
                 \<longrightarrow> find_val h c' = find_val (hidden (doctest_game hidden_dig Ongoing)) c'))"
proof -
  let ?G = "doctest_game hidden_dig Ongoing"
  have a1: "state ?G = Ongoing" by (simp add: doctest_game_def)
  have a2: "dimensions ?G \<noteq> []" by (simp add: doctest_game_def)
  have a3: "shaped (dimensions ?G) (board ?G)" by (simp add: doctest_game_def doctest_board_def)
  have a4: "shaped (dimensions ?G) (hidden ?G)" by (simp add: doctest_game_def hidden_dig_def)
  have a5: "valid_coord (dimensions ?G) [0, 0]" by (simp add: doctest_game_def valid_coord_def)
  have a6: "find_val (board ?G) [0, 0] = Inr (Leaf Bomb)"
    by (simp add: doctest_game_def doctest_board_def subscript_def)
  from dig_nd_bomb [OF a1 a2 a3 a4 a5 a6, of 0] a1 a2 a3 a4 a5 a6 show ?thesis by blast
qed

section \<open>What the flood fill does\<close>

text \<open>The ways in which a call of \<^verbatim>\<open>zero\<close> and a turn of its loop return a result.\<close>

lemma zero_Suc_cases:
  assumes "zero (Suc n) g c = Some (Inr (k, g'))"
  obtains
    (seen) h where "find_val (hidden g) c = Inr h" "truthy h" "k = 1" "g' = g"
  | (stop) h h1 u where "find_val (hidden g) c = Inr h" "\<not> truthy h"
      "replace (hidden g) c (Leaf True) = Inr h1" "find_val (board g) c = Inr u"
      "u \<noteq> Leaf (Count 0)" "k = 0" "g' = g\<lparr>hidden := h1\<rparr>"
  | (spread) h h1 h2 ns where "find_val (hidden g) c = Inr h" "\<not> truthy h"
      "replace (hidden g) c (Leaf True) = Inr h1" "find_val (board g) c = Inr (Leaf (Count 0))"
      "replace h1 c (Leaf True) = Inr h2" "get_neighbors (dimensions g) c = Inr ns"
      "zero_loop n (g\<lparr>hidden := h2\<rparr>) 0 ns = Some (Inr (k, g'))"
  using assms by (auto split: sum.splits if_splits)

lemma zero_loop_Cons_cases:
  assumes "zero_loop n g tot (i # others) = Some (Inr (k, g'))"
  obtains j g1 where "zero n g i = Some (Inr (j, g1))"
    "zero_loop n g1 (tot + j) others = Some (Inr (k, g'))"
  using assms by (auto split: option.splits sum.splits prod.splits)

text \<open>The flood fill assigns nothing but the hidden array.\<close>

lemma zero_loop_frame:
  assumes step: "\<And>g c k g'. zero n g c = Some (Inr (k, g')) \<Longrightarrow> same_frame g g'"
  shows "zero_loop n g tot cs = Some (Inr (k, g')) \<Longrightarrow> same_frame g g'"
proof (induction cs arbitrary: g tot)
  case Nil
  then show ?case by (simp add: same_frame_def)
next
  case (Cons i others)
  from Cons.prems obtain j g1 where z: "zero n g i = Some (Inr (j, g1))"
    and l: "zero_loop n g1 (tot + j) others = Some (Inr (k, g'))"
    by (rule zero_loop_Cons_cases)
  from step [OF z] Cons.IH [OF l] show ?case by (simp add: same_frame_def)
qed

lemma zero_frame: "zero n g c = Some (Inr (k, g')) \<Longrightarrow> same_frame g g'"
proof (induction n arbitrary: g c k g')
  case 0
  then show ?case by simp
next
  case (Suc n)
  from Suc.prems show ?case
  proof (cases rule: zero_Suc_cases)
    case (seen h)
    then show ?thesis by (simp add: same_frame_def)
  next
    case (stop h h1 u)
    then show ?thesis by (simp add: same_frame_def)
  next
    case (spread h h1 h2 ns)
    from zero_loop_frame [OF Suc.IH spread(7)] show ?thesis by (simp add: same_frame_def)
  qed
qed

text \<open>No branch of \<^verbatim>\<open>dig_nd\<close> assigns \<^verbatim>\<open>'victory'\<close>.\<close>

lemma dig_nd_never_wins:
  assumes "dig_nd fuel g c = Some (Inr (k, g'))" and "state g \<noteq> Victory"
  shows "state g' \<noteq> Victory"
proof (cases "find_val (board g) c")
  case (Inl e)
  with assms show ?thesis by (simp add: dig_nd_def)
next
  case (Inr val)
  show ?thesis
  proof (cases "state g = Defeat")
    case True
    with assms Inr show ?thesis by (auto simp: dig_nd_def)
  next
    case nd: False
    show ?thesis
    proof (cases "val = Leaf Bomb")
      case True
      with assms Inr nd show ?thesis by (auto simp: dig_nd_def split: sum.splits)
    next
      case nb: False
      show ?thesis
      proof (cases "val = Leaf (Count 0)")
        case True
        with assms Inr nd nb obtain h where
          "zero fuel (g\<lparr>hidden := h\<rparr>) c = Some (Inr (k, g'))"
          by (auto simp: dig_nd_def split: sum.splits)
        from zero_frame [OF this] assms(2) show ?thesis by (simp add: same_frame_def)
      next
        case False
        with assms Inr nd nb show ?thesis
          by (auto simp: dig_nd_def split: nd.splits cell.splits if_splits)
      qed
    qed
  qed
qed

text \<open>The branch \<^verbatim>\<open>elif val>0\<close> returns 1 and leaves an ongoing game as it was.\<close>

lemma dig_nd_positive:
  "state g = Ongoing \<Longrightarrow> find_val (board g) c = Inr (Leaf (Count n)) \<Longrightarrow> 0 < n \<Longrightarrow>
   dig_nd fuel g c = Some (Inr (1, g))"
  by (simp add: dig_nd_def)

text \<open>
  Claim C1 (what the code does instead). The first doctest of \<^verbatim>\<open>dig_2d\<close> digs the
  cell (0, 3), of value 0, and expects 4 with the four cells of the right two columns
  revealed. The code returns 4 and leaves the game exactly as it was: the dug cell and
  its three neighbours are still hidden, so no cell went from hidden to revealed.
\<close>

theorem dig_nd_zero_cell_reveals_nothing:
  "dig_2d 2 (doctest_game hidden_dig Ongoing) 0 3 = Some (Inr (4, doctest_game hidden_dig Ongoing))
   \<and> find_val (hidden (doctest_game hidden_dig Ongoing)) [0, 3] = Inr (Leaf True)"
  by code_simp

text \<open>
  Claim C2 (what the code does instead). In the game that \<^verbatim>\<open>new_game_2d\<close> builds, a
  dig at (0, 3) first writes False to that cell of the hidden array and then calls
  \<^verbatim>\<open>zero\<close>, which writes True back to it. In the game of the first doctest of
  \<^verbatim>\<open>render_2d_locations\<close> the cell (0, 2) is revealed before a dig at (0, 3) and
  hidden after it.
\<close>

theorem zero_hides_revealed_cells:
  "new_game_2d 2 4 [[0, 0], [1, 0], [1, 1]] = Inr (doctest_game hidden_fresh Ongoing)
   \<and> replace hidden_fresh [0, 3] (Leaf False) = Inr hidden_corner
   \<and> find_val hidden_corner [0, 3] = Inr (Leaf False)
   \<and> zero 2 (doctest_game hidden_corner Ongoing) [0, 3]
        = Some (Inr (4, doctest_game hidden_fresh Ongoing))
   \<and> find_val hidden_fresh [0, 3] = Inr (Leaf True)
   \<and> find_val hidden_render [0, 2] = Inr (Leaf False)
   \<and> dig_2d 2 (doctest_game hidden_render Ongoing) 0 3
        = Some (Inr (2, doctest_game hidden_dig Ongoing))
   \<and> find_val hidden_dig [0, 2] = Inr (Leaf True)"
  by code_simp

text \<open>
  Claim C3 (what the code does instead). With every safe cell of the doctest board
  revealed and every bomb hidden, a dig in the ongoing game returns 1 and the state is
  still Ongoing, not Victory.
\<close>

theorem dig_nd_never_declares_victory:
  "dig_2d 0 (doctest_game hidden_won Ongoing) 0 1 = Some (Inr (1, doctest_game hidden_won Ongoing))
   \<and> safe_revealed_bombs_hidden (doctest_game hidden_won Ongoing)
   \<and> state (doctest_game hidden_won Ongoing) = Ongoing"
  by code_simp

text \<open>
  Claim C4 (what the code does instead). A dig at the hidden cell (0, 2) of the doctest
  board, of value 1, returns 1 and leaves the game as it was: the cell is still hidden.
\<close>

theorem dig_nd_positive_cell_stays_hidden:
  "find_val (board (doctest_game hidden_dig Ongoing)) [0, 2] = Inr (Leaf (Count 1))
   \<and> dig_2d 0 (doctest_game hidden_dig Ongoing) 0 2 = Some (Inr (1, doctest_game hidden_dig Ongoing))
   \<and> find_val (hidden (doctest_game hidden_dig Ongoing)) [0, 2] = Inr (Leaf True)"
  by code_simp

section \<open>Enumerating coordinates\<close>

lemma set_prepend_all: "set (prepend_all is cs) = {i # c | i c. i \<in> set is \<and> c \<in> set cs}"
  by (auto simp: prepend_all_def)

lemma distinct_prepend_all:
  "distinct is \<Longrightarrow> distinct cs \<Longrightarrow> distinct (prepend_all is cs)"
proof (induction "is")
  case Nil
  then show ?case by (simp add: prepend_all_def)
next
  case (Cons i js)
  have "prepend_all (i # js) cs = map ((#) i) cs @ prepend_all js cs"
    by (simp add: prepend_all_def)
  moreover have "distinct (map ((#) i) cs)"
    using Cons.prems(2) by (simp add: distinct_map)
  moreover have "set (map ((#) i) cs) \<inter> set (prepend_all js cs) = {}"
    using Cons.prems(1) by (auto simp: set_prepend_all)
  ultimately show ?case using Cons by simp
qed

lemma py_range_set: "set (py_range d) = {i. 0 \<le> i \<and> i < d}"
  by (auto simp: py_range_def)

lemma py_range_distinct: "distinct (py_range d)"
  by (simp add: py_range_def)

lemma coords_prepend: "coords (d # ds) = prepend_all (py_range d) (coords ds)"
  by (simp add: prepend_all_def)

lemma coords_distinct: "distinct (coords dims)"
  by (induction dims) (simp_all add: distinct_prepend_all py_range_distinct flip: prepend_all_def)

lemma coords_set: "set (coords dims) = {c. valid_coord dims c}"
proof (induction dims)
  case Nil
  show ?case by auto
next
  case (Cons d ds)
  have "set (coords (d # ds)) = {i # c | i c. i \<in> set (py_range d) \<and> c \<in> set (coords ds)}"
    unfolding coords_prepend by (rule set_prepend_all)
  also have "\<dots> = {c. valid_coord (d # ds) c}"
    using Cons.IH by (auto simp: py_range_set valid_coord_Cons)
  finally show ?case .
qed

lemma fold_insert_set:
  "set (fold (\<lambda>x acc. List.insert (f x) acc) xs acc0) = f ` set xs \<union> set acc0"
  by (induction xs arbitrary: acc0) auto

lemma fold_insert_distinct:
  "distinct acc0 \<Longrightarrow> distinct (fold (\<lambda>x acc. List.insert (f x) acc) xs acc0)"
  by (induction xs arbitrary: acc0) auto

lemma fold_fold_insert_set:
  "set (fold (\<lambda>x acc. fold (\<lambda>y acc'. List.insert (x # y) acc') ys acc) xs acc0)
     = {x # y | x y. x \<in> set xs \<and> y \<in> set ys} \<union> set acc0"
proof (induction xs arbitrary: acc0)
  case Nil
  show ?case by simp
next
  case (Cons x xs)
  show ?case by (simp add: Cons.IH fold_insert_set) blast
qed

lemma fold_fold_insert_distinct:
  "distinct acc0 \<Longrightarrow>
   distinct (fold (\<lambda>x acc. fold (\<lambda>y acc'. List.insert (x # y) acc') ys acc) xs acc0)"
  by (induction xs arbitrary: acc0) (simp_all add: fold_insert_distinct)

lemma get_coordinates_ok:
  "dims \<noteq> [] \<Longrightarrow>
   \<exists>cs. get_coordinates dims = Inr cs \<and> distinct cs \<and> set cs = {c. valid_coord dims c}"
proof (induction dims rule: get_coordinates.induct)
  case 1
  then show ?case by simp
next
  case (2 d)
  have "set (fold (\<lambda>x acc. List.insert [x] acc) (py_range d) []) = {c. valid_coord [d] c}"
    by (auto simp: fold_insert_set py_range_set valid_coord_Cons)
  then show ?case by (simp add: fold_insert_distinct)
next
  case (3 d d' ds)
  show ?case
  proof (cases "d \<le> 0")
    case True
    then show ?thesis by (auto simp: valid_coord_Cons)
  next
    case False
    with "3.IH" obtain ys where ys: "get_coordinates (d' # ds) = Inr ys" "distinct ys"
      "set ys = {c. valid_coord (d' # ds) c}"
      by auto
    let ?r = "fold (\<lambda>x acc. fold (\<lambda>y acc'. List.insert (x # y) acc') ys acc) (py_range d) []"
    have "get_coordinates (d # d' # ds) = Inr ?r" using False ys(1) by simp
    moreover have "distinct ?r" by (simp add: fold_fold_insert_distinct)
    moreover have "set ?r = {c. valid_coord (d # d' # ds) c}"
      unfolding fold_fold_insert_set using ys(3)
      by (auto simp: py_range_set valid_coord_Cons [of d])
    ultimately show ?thesis by blast
  qed
qed

text \<open>
  Claim C9 (as amended). The generator \<^verbatim>\<open>coords\<close> yields every valid coordinate of
  any dimensions vector exactly once: the single empty coordinate for the empty vector,
  and otherwise every axis-0 index in front of every coordinate of the remaining axes.
  \<^verbatim>\<open>get_coordinates\<close> builds the same set, without duplicates, for every non-empty
  dimensions vector.
\<close>

theorem get_coordinates_enumerates:
  "distinct (coords dims) \<and> set (coords dims) = {c. valid_coord dims c}
   \<and> coords [] = [[]]
   \<and> coords (d # ds) = concat (map (\<lambda>i. map ((#) i) (coords ds)) (py_range d))
   \<and> (dims \<noteq> [] \<longrightarrow>
        (\<exists>cs. get_coordinates dims = Inr cs \<and> distinct cs \<and> set cs = {c. valid_coord dims c}))"
  using coords_distinct [of dims] coords_set [of dims] get_coordinates_ok [of dims]
  by simp

theorem get_coordinates_enumerates_witness:
  "[2, 3] \<noteq> ([] :: int list)
   \<and> distinct (coords [2, 3]) \<and> set (coords [2, 3]) = {c. valid_coord [2, 3] c}
   \<and> coords [2, 3] = [[0, 0], [0, 1], [0, 2], [1, 0], [1, 1], [1, 2]]
   \<and> (\<exists>cs. get_coordinates [2, 3] = Inr cs \<and> distinct cs
          \<and> set cs = {c. valid_coord [2, 3] c})"
proof -
  have "coords [2, 3] = [[0, 0], [0, 1], [0, 2], [1, 0], [1, 1], [1, 2]]"
    by code_simp
  moreover have "[2, 3] \<noteq> ([] :: int list)" by simp
  ultimately show ?thesis using get_coordinates_enumerates [of "[2, 3]" 2 "[3]"] by blast
qed

text \<open>
  Claim C9 (as stated) fails for \<^verbatim>\<open>get_coordinates\<close>: the empty tuple is the one valid
  coordinate of the empty dimensions vector, and \<^verbatim>\<open>dimensions[0]\<close> raises there.
\<close>

theorem get_coordinates_empty_dimensions:
  "valid_coord [] [] \<and> get_coordinates [] = Inl IndexError"
  by simp

section \<open>The neighbours of a coordinate\<close>

lemma axis_loop_single:
  "axis_loop (d # ds) True inner is
     = Inr (prepend_all (filter (\<lambda>i. 0 \<le> i \<and> i < d) is) [[]])"
  by (induction "is") (auto simp: prepend_all_def)

lemma axis_loop_inner:
  "axis_loop (d # ds) False (Inr ns) is
     = Inr (prepend_all (filter (\<lambda>i. 0 \<le> i \<and> i < d) is) ns)"
  by (induction "is") (auto simp: prepend_all_def)

lemma near_Cons: "near x (c # cs) = (\<exists>i x'. x = i # x' \<and> \<bar>i - c\<bar> \<le> 1 \<and> near x' cs)"
  by (auto simp: near_def list_all2_Cons2)

lemma near_Nil [simp]: "near x [] = (x = [])"
  by (simp add: near_def)

lemma near_refl: "near c c"
  by (simp add: near_def list_all2_same)

lemma window_distinct: "distinct (filter P [c - 1, c, c + (1::int)])"
  by simp

lemma window_set: "set (filter (\<lambda>i. 0 \<le> i \<and> i < d) [c - 1, c, c + 1])
     = {i. 0 \<le> i \<and> i < d \<and> \<bar>i - c\<bar> \<le> (1::int)}"
  by auto

lemma get_neighbors_ok:
  "c \<noteq> [] \<Longrightarrow> length dims = length c \<Longrightarrow>
   \<exists>ns. get_neighbors dims c = Inr ns \<and> distinct ns
        \<and> set ns = {x. valid_coord dims x \<and> near x c}"
proof (induction c arbitrary: dims)
  case Nil
  then show ?case by simp
next
  case (Cons a rest)
  from Cons.prems(2) obtain d ds where dims: "dims = d # ds" and len: "length ds = length rest"
    by (cases dims) auto
  let ?w = "filter (\<lambda>i. 0 \<le> i \<and> i < d) [a - 1, a, a + 1]"
  show ?case
  proof (cases "rest = []")
    case True
    with len have ds: "ds = []" by simp
    have g: "get_neighbors dims (a # rest) = Inr (prepend_all ?w [[]])"
      using True dims by (simp add: axis_loop_single del: axis_loop.simps filter.simps)
    have d: "distinct (prepend_all ?w [[]])"
      by (rule distinct_prepend_all) simp_all
    have "set (prepend_all ?w [[]]) = {i # c | i c. i \<in> set ?w \<and> c \<in> set [[]]}"
      by (rule set_prepend_all)
    also have "\<dots> = {x. valid_coord dims x \<and> near x (a # rest)}"
      unfolding window_set using True dims ds by (auto simp: valid_coord_Cons near_Cons)
    finally show ?thesis using g d by blast
  next
    case False
    from Cons.IH [OF False, of ds] len obtain ns where
      ns: "get_neighbors ds rest = Inr ns" "distinct ns"
        "set ns = {x. valid_coord ds x \<and> near x rest}"
      by auto
    have g: "get_neighbors dims (a # rest) = Inr (prepend_all ?w ns)"
      using False dims ns(1) by (simp add: axis_loop_inner del: axis_loop.simps filter.simps)
    have d: "distinct (prepend_all ?w ns)"
      using ns(2) by (intro distinct_prepend_all) simp_all
    have "set (prepend_all ?w ns) = {i # c | i c. i \<in> set ?w \<and> c \<in> set ns}"
      by (rule set_prepend_all)
    also have "\<dots> = {x. valid_coord dims x \<and> near x (a # rest)}"
      unfolding window_set ns(3) using dims by (auto simp: valid_coord_Cons near_Cons)
    finally show ?thesis using g d by blast
  qed
qed

lemma valid_coord_length: "valid_coord dims c \<Longrightarrow> length dims = length c"
  by (simp add: valid_coord_def list_all2_lengthD)

lemma get_neighbors_valid:
  assumes "dims \<noteq> []" and "valid_coord dims c"
  shows "\<exists>ns. get_neighbors dims c = Inr ns \<and> distinct ns
           \<and> set ns = {x. valid_coord dims x \<and> near x c}"
proof -
  from assms have "c \<noteq> []" by (cases dims) (auto simp: valid_coord_Cons)
  from get_neighbors_ok [OF this valid_coord_length [OF assms(2)]] show ?thesis by blast
qed

text \<open>
  Claim C8. For a non-empty dimensions vector and a valid coordinate, the generator
  \<^verbatim>\<open>get_neighbors\<close> raises nothing and yields, each exactly once, the coordinates that
  are valid for the dimensions and differ from the given one by at most 1 on every
  axis; the given coordinate is one of them.
\<close>

theorem get_neighbors_exact:
  assumes "dims \<noteq> []" and "valid_coord dims c"
  shows "\<exists>ns. get_neighbors dims c = Inr ns \<and> distinct ns
           \<and> set ns = {x. valid_coord dims x \<and> near x c} \<and> c \<in> set ns"
proof -
  from assms have "c \<noteq> []" by (cases dims) (auto simp: valid_coord_Cons)
  from get_neighbors_ok [OF this valid_coord_length [OF assms(2)]] obtain ns where
    "get_neighbors dims c = Inr ns" "distinct ns" "set ns = {x. valid_coord dims x \<and> near x c}"
    by blast
  with assms(2) near_refl show ?thesis by blast
qed

theorem get_neighbors_exact_witness:
  "[2, 4] \<noteq> ([] :: int list) \<and> valid_coord [2, 4] [0, 3]
   \<and> get_neighbors [2, 4] [0, 3] = Inr [[0, 2], [0, 3], [1, 2], [1, 3]]
   \<and> (\<exists>ns. get_neighbors [2, 4] [0, 3] = Inr ns \<and> distinct ns
          \<and> set ns = {x. valid_coord [2, 4] x \<and> near x [0, 3]} \<and> [0, 3] \<in> set ns)"
proof -
  have ne: "[2, 4] \<noteq> ([] :: int list)" by simp
  have vc: "valid_coord [2, 4] [0, 3]" by (simp add: valid_coord_def)
  have ev: "get_neighbors [2, 4] [0, 3] = Inr [[0, 2], [0, 3], [1, 2], [1, 3]]" by code_simp
  from get_neighbors_exact [OF ne vc] ne vc ev show ?thesis by blast
qed

section \<open>Building a new game\<close>

lemma new_board_reads_as:
  "dims \<noteq> [] \<Longrightarrow> list_all (\<lambda>d. 0 < d) dims \<Longrightarrow>
   \<exists>b. new_board dims (Leaf v) = Inr b \<and> reads_as dims b (\<lambda>x. v)"
proof (induction dims "Leaf v" rule: new_board.induct)
  case 1
  then show ?case by simp
next
  case (2 d)
  then have d: "0 < d" by simp
  have "shaped [d] (Node (replicate (nat d) (Leaf v)))"
    using d by (simp add: list_all_iff)
  moreover have "find_val (Node (replicate (nat d) (Leaf v))) x = Inr (Leaf v)"
    if "valid_coord [d] x" for x
    using that d by (auto simp: valid_coord_Cons subscript_inside)
  ultimately show ?case by (simp add: reads_as_def)
next
  case (3 d d' ds)
  then have d: "0 < d" and rest: "list_all (\<lambda>d. 0 < d) (d' # ds)" by simp_all
  from "3.hyps" d rest obtain sub where
    sub: "new_board (d' # ds) (Leaf v) = Inr sub" "reads_as (d' # ds) sub (\<lambda>x. v)"
    by auto
  let ?b = "Node (replicate (nat d) sub)"
  have nb: "new_board (d # d' # ds) (Leaf v) = Inr ?b" using d sub(1) by simp
  have sh: "shaped (d # d' # ds) ?b"
    using d sub(2) by (simp add: reads_as_def list_all_iff)
  have fv: "find_val ?b x = Inr (Leaf v)" if "valid_coord (d # d' # ds) x" for x
  proof -
    from that obtain i cs where x: "x = i # cs" "0 \<le> i" "i < d" "valid_coord (d' # ds) cs"
      by (auto simp: valid_coord_Cons [of d])
    then have "find_val ?b x = find_val sub cs" by (simp add: subscript_inside)
    with sub(2) x(4) show ?thesis by (simp add: reads_as_def)
  qed
  from nb sh fv show ?case by (auto simp: reads_as_def)
qed

lemma replace_reads_as:
  assumes "reads_as dims b f" and "dims \<noteq> []" and "valid_coord dims c"
  shows "\<exists>b'. replace b c (Leaf v) = Inr b' \<and> reads_as dims b' (f(c := v))"
proof -
  from assms have sh: "shaped dims b" by (simp add: reads_as_def)
  from replace_shaped [OF sh assms(3,2), of v] obtain b' where
    b': "replace b c (Leaf v) = Inr b'" "shaped dims b'" "find_val b' c = Inr (Leaf v)"
      "\<forall>c'. valid_coord dims c' \<longrightarrow> c' \<noteq> c \<longrightarrow> find_val b' c' = find_val b c'"
    by blast
  have "reads_as dims b' (f(c := v))"
    unfolding reads_as_def using b' assms(1) by (auto simp: reads_as_def)
  with b'(1) show ?thesis by blast
qed

lemma reads_as_cong: "reads_as dims b f \<Longrightarrow> (\<And>x. valid_coord dims x \<Longrightarrow> f x = g x) \<Longrightarrow> reads_as dims b g"
  by (simp add: reads_as_def)

lemma count_loop_reads_as:
  assumes "dims \<noteq> []"
  shows "reads_as dims b f \<Longrightarrow> \<forall>n \<in> set ns. valid_coord dims n \<Longrightarrow> distinct ns \<Longrightarrow>
     \<forall>n \<in> set ns. n \<notin> set bombs \<longrightarrow> (\<exists>k. f n = Count k) \<Longrightarrow>
     \<exists>b'. count_loop bombs b ns = Inr b' \<and>
       reads_as dims b' (\<lambda>x. if x \<in> set ns \<and> x \<notin> set bombs then succ_cell (f x) else f x)"
proof (induction ns arbitrary: b f)
  case Nil
  then show ?case by simp
next
  case (Cons n ns)
  show ?case
  proof (cases "n \<in> set bombs")
    case True
    from Cons.IH [OF Cons.prems(1)] Cons.prems obtain b' where
      b': "count_loop bombs b ns = Inr b'"
        "reads_as dims b' (\<lambda>x. if x \<in> set ns \<and> x \<notin> set bombs then succ_cell (f x) else f x)"
      by auto
    from b'(2) have "reads_as dims b'
        (\<lambda>x. if x \<in> set (n # ns) \<and> x \<notin> set bombs then succ_cell (f x) else f x)"
      by (rule reads_as_cong) (use True in auto)
    with b'(1) True show ?thesis by simp
  next
    case False
    from Cons.prems have vn: "valid_coord dims n" by simp
    from Cons.prems(4) False obtain k where k: "f n = Count k" by auto
    from Cons.prems(1) vn k have fv: "find_val b n = Inr (Leaf (Count k))"
      by (simp add: reads_as_def)
    from replace_reads_as [OF Cons.prems(1) assms vn, of "Count (k + 1)"] obtain b1 where
      b1: "replace b n (Leaf (Count (k + 1))) = Inr b1" "reads_as dims b1 (f(n := Count (k + 1)))"
      by blast
    have pre: "\<forall>m \<in> set ns. m \<notin> set bombs \<longrightarrow> (\<exists>j. (f(n := Count (k + 1))) m = Count j)"
      using Cons.prems(4) by auto
    from Cons.IH [OF b1(2) _ _ pre] Cons.prems obtain b' where
      b': "count_loop bombs b1 ns = Inr b'"
        "reads_as dims b' (\<lambda>x. if x \<in> set ns \<and> x \<notin> set bombs
             then succ_cell ((f(n := Count (k + 1))) x) else (f(n := Count (k + 1))) x)"
      by auto
    from b'(2) have "reads_as dims b'
        (\<lambda>x. if x \<in> set (n # ns) \<and> x \<notin> set bombs then succ_cell (f x) else f x)"
      by (rule reads_as_cong) (use False k Cons.prems(3) in auto)
    moreover have "count_loop bombs b (n # ns) = Inr b'"
      using False fv b1(1) b'(1) by simp
    ultimately show ?thesis by blast
  qed
qed

lemma bomb_loop_reads_as:
  assumes "dims \<noteq> []" and "\<forall>bm \<in> set bombs. valid_coord dims bm"
  shows "reads_as dims b (layout bombs placed) \<Longrightarrow> set placed \<subseteq> set bombs \<Longrightarrow>
     set todo \<subseteq> set bombs \<Longrightarrow>
     \<exists>b'. bomb_loop dims bombs b todo = Inr b' \<and> reads_as dims b' (layout bombs (placed @ todo))"
proof (induction todo arbitrary: b placed)
  case Nil
  then show ?case by simp
next
  case (Cons bc todo)
  from Cons.prems(3) assms(2) have vbc: "valid_coord dims bc" and bcb: "bc \<in> set bombs" by auto
  from get_neighbors_valid [OF assms(1) vbc] obtain ns where
    ns: "get_neighbors dims bc = Inr ns" "distinct ns"
      "set ns = {x. valid_coord dims x \<and> near x bc}"
    by blast
  from replace_reads_as [OF Cons.prems(1) assms(1) vbc, of Bomb] obtain b1 where
    b1: "replace b bc (Leaf Bomb) = Inr b1" "reads_as dims b1 ((layout bombs placed)(bc := Bomb))"
    by blast
  have pre: "\<forall>n \<in> set ns. n \<notin> set bombs \<longrightarrow> (\<exists>k. ((layout bombs placed)(bc := Bomb)) n = Count k)"
    using Cons.prems(2) bcb by (auto simp: layout_def)
  from count_loop_reads_as [OF assms(1) b1(2) _ ns(2) pre] ns(3) obtain b2 where
    b2: "count_loop bombs b1 ns = Inr b2"
      "reads_as dims b2 (\<lambda>x. if x \<in> set ns \<and> x \<notin> set bombs
           then succ_cell (((layout bombs placed)(bc := Bomb)) x)
           else ((layout bombs placed)(bc := Bomb)) x)"
    by auto
  from b2(2) have inv: "reads_as dims b2 (layout bombs (placed @ [bc]))"
    by (rule reads_as_cong) (use ns(3) bcb Cons.prems(2) in \<open>auto simp: layout_def\<close>)
  from Cons.IH [OF inv] Cons.prems(2,3) bcb obtain b' where
    b': "bomb_loop dims bombs b2 todo = Inr b'"
      "reads_as dims b' (layout bombs ((placed @ [bc]) @ todo))"
    by auto
  have "bomb_loop dims bombs b (bc # todo) = Inr b'"
    using ns(1) b1(1) b2(1) b'(1) by simp
  with b'(2) show ?case by auto
qed

lemma near_sym: "near x y = near y x"
proof -
  have "list_all2 (\<lambda>a b. \<bar>a - b\<bar> \<le> (1::int)) x y = list_all2 (\<lambda>a b. \<bar>b - a\<bar> \<le> 1) x y"
    by (simp add: abs_minus_commute)
  also have "\<dots> = list_all2 (\<lambda>a b. \<bar>a - b\<bar> \<le> 1) y x"
    by (rule list_all2_conv_all_nth [THEN trans]) (auto simp: list_all2_conv_all_nth)
  finally show ?thesis by (simp add: near_def)
qed

text \<open>
  Claim C7. For a non-empty dimensions vector of positive lengths and a duplicate-free
  list of valid bomb coordinates, \<^verbatim>\<open>new_game_nd\<close> returns a game with those dimensions
  and state Ongoing, whose board and hidden array have the shape of the dimensions; at
  every valid coordinate the hidden array holds True, a bomb coordinate holds the bomb
  marker, and any other cell holds the number of bomb coordinates in its neighbour set
  (the cell itself left out).
\<close>

theorem new_game_nd_counts:
  assumes "dims \<noteq> []" and "list_all (\<lambda>d. 0 < d) dims"
    and "distinct bombs" and "\<forall>bm \<in> set bombs. valid_coord dims bm"
  shows "\<exists>g. new_game_nd dims bombs = Inr g \<and> dimensions g = dims \<and> state g = Ongoing
           \<and> shaped dims (board g) \<and> shaped dims (hidden g)
           \<and> (\<forall>x. valid_coord dims x \<longrightarrow>
                 find_val (hidden g) x = Inr (Leaf True)
               \<and> (x \<in> set bombs \<longrightarrow> find_val (board g) x = Inr (Leaf Bomb))
               \<and> (x \<notin> set bombs \<longrightarrow>
                   (\<exists>ns. get_neighbors dims x = Inr ns
                      \<and> find_val (board g) x
                          = Inr (Leaf (Count (int (card {bm \<in> set bombs. bm \<in> set ns \<and> bm \<noteq> x})))))))"
proof -
  from new_board_reads_as [OF assms(1,2), of "Count 0"] obtain b0 where
    b0: "new_board dims (Leaf (Count 0)) = Inr b0" "reads_as dims b0 (\<lambda>x. Count 0)"
    by blast
  from new_board_reads_as [OF assms(1,2), of True] obtain h0 where
    h0: "new_board dims (Leaf True) = Inr h0" "reads_as dims h0 (\<lambda>x. True)"
    by blast
  from b0(2) have "reads_as dims b0 (layout bombs [])"
    by (rule reads_as_cong) (simp add: layout_def)
  from bomb_loop_reads_as [OF assms(1,4) this, of bombs] obtain b where
    b: "bomb_loop dims bombs b0 bombs = Inr b" "reads_as dims b (layout bombs bombs)"
    by auto
  let ?g = "\<lparr>dimensions = dims, board = b, hidden = h0, state = Ongoing\<rparr>"
  have ng: "new_game_nd dims bombs = Inr ?g"
    using b0(1) h0(1) b(1) by (simp add: new_game_nd_def)
  have cell: "find_val h0 x = Inr (Leaf True)
      \<and> (x \<in> set bombs \<longrightarrow> find_val b x = Inr (Leaf Bomb))
      \<and> (x \<notin> set bombs \<longrightarrow>
          (\<exists>ns. get_neighbors dims x = Inr ns
             \<and> find_val b x = Inr (Leaf (Count (int (card {bm \<in> set bombs. bm \<in> set ns \<and> bm \<noteq> x}))))))"
    if vx: "valid_coord dims x" for x
  proof (intro conjI impI)
    show "find_val h0 x = Inr (Leaf True)" using h0(2) vx by (simp add: reads_as_def)
  next
    assume "x \<in> set bombs"
    then show "find_val b x = Inr (Leaf Bomb)" using b(2) vx by (simp add: reads_as_def layout_def)
  next
    assume nb: "x \<notin> set bombs"
    from get_neighbors_valid [OF assms(1) vx] obtain ns where
      ns: "get_neighbors dims x = Inr ns" "set ns = {y. valid_coord dims y \<and> near y x}"
      by blast
    have "{bm \<in> set bombs. bm \<in> set ns \<and> bm \<noteq> x} = {bm. near x bm} \<inter> set bombs"
      using ns(2) assms(4) nb by (auto simp: near_sym [of x])
    then have "card {bm \<in> set bombs. bm \<in> set ns \<and> bm \<noteq> x} = length (filter (near x) bombs)"
      using assms(3) by (simp add: distinct_length_filter)
    moreover have "find_val b x = Inr (Leaf (Count (int (length (filter (near x) bombs)))))"
      using b(2) vx nb by (simp add: reads_as_def layout_def)
    ultimately show "\<exists>ns. get_neighbors dims x = Inr ns
        \<and> find_val b x = Inr (Leaf (Count (int (card {bm \<in> set bombs. bm \<in> set ns \<and> bm \<noteq> x}))))"
      using ns(1) by simp
  qed
  have "shaped dims b" "shaped dims h0" using b(2) h0(2) by (simp_all add: reads_as_def)
  with ng cell show ?thesis by (intro exI [of _ ?g]) simp
qed

theorem new_game_nd_counts_witness:
  "[2, 4] \<noteq> ([] :: int list) \<and> list_all (\<lambda>d. 0 < d) [2, 4 :: int]
   \<and> distinct [[0, 0], [1, 0], [1, 1 :: int]]
   \<and> valid_coord [2, 4] [0, 0] \<and> valid_coord [2, 4] [1, 0] \<and> valid_coord [2, 4] [1, 1]
   \<and> new_game_nd [2, 4] [[0, 0], [1, 0], [1, 1]] = Inr (doctest_game hidden_fresh Ongoing)
   \<and> (\<exists>g. new_game_nd [2, 4] [[0, 0], [1, 0], [1, 1]] = Inr g
        \<and> (\<forall>x. valid_coord [2, 4] x \<longrightarrow>
              find_val (hidden g) x = Inr (Leaf True)
            \<and> (x \<in> set [[0, 0], [1, 0], [1, 1]] \<longrightarrow> find_val (board g) x = Inr (Leaf Bomb))
            \<and> (x \<notin> set [[0, 0], [1, 0], [1, 1]] \<longrightarrow>
                (\<exists>ns. get_neighbors [2, 4] x = Inr ns
                   \<and> find_val (board g) x
                       = Inr (Leaf (Count (int (card {bm \<in> set [[0, 0], [1, 0], [1, 1]].
                                                     bm \<in> set ns \<and> bm \<noteq> x}))))))))"
proof -
  have a1: "[2, 4] \<noteq> ([] :: int list)" by simp
  have a2: "list_all (\<lambda>d. 0 < d) [2, 4 :: int]" by simp
  have a3: "distinct [[0, 0], [1, 0], [1, 1 :: int]]" by simp
  have a4: "\<forall>bm \<in> set [[0, 0], [1, 0], [1, 1]]. valid_coord [2, 4] bm"
    by (simp add: valid_coord_def)
  have ev: "new_game_nd [2, 4] [[0, 0], [1, 0], [1, 1]] = Inr (doctest_game hidden_fresh Ongoing)"
    by code_simp
  have a5: "valid_coord [2, 4] [0, 0] \<and> valid_coord [2, 4] [1, 0] \<and> valid_coord [2, 4] [1, 1]"
    by (simp add: valid_coord_def)
  from new_game_nd_counts [OF a1 a2 a3 a4] a1 a2 a3 a5 ev show ?thesis by blast
qed

section \<open>Rendering writes only to the lists it creates\<close>

lemma subscript_in_set: "subscript xs i = Inr x \<Longrightarrow> x \<in> set xs"
  by (auto simp: subscript_def split: if_splits)

lemma store_set: "store xs i v = Inr ys \<Longrightarrow> set ys \<subseteq> insert v (set xs)"
  by (auto simp: store_def split: if_splits dest: set_update_subset_insert [THEN subsetD])

lemma h_subscript_fresh:
  assumes "region_closed n h" and "fresh_val n v" and "h_subscript h v i = Inr x"
  shows "fresh_val n x"
proof (cases v)
  case (PRef a)
  with assms(3) have a: "a < length h" and x: "x \<in> set (h ! a)"
    by (auto split: if_splits dest: subscript_in_set)
  from assms(2) PRef have "n \<le> a" by (simp add: fresh_val_def)
  with assms(1) a have "list_all (fresh_val n) (h ! a)" by (simp add: region_closed_def)
  with x show ?thesis by (simp add: list_all_iff)
next
  case (PStr s)
  with assms(3) show ?thesis by (auto simp: fresh_val_def split: sum.splits)
qed (use assms(3) in auto)

lemma h_store_fresh:
  assumes "region_closed n h" and "fresh_val n v" and "fresh_val n x"
    and "h_store h v i x = Inr h'"
  shows "length h' = length h \<and> take n h' = take n h \<and> region_closed n h'"
proof (cases v)
  case (PRef a)
  with assms(4) obtain ys where a: "a < length h" and ys: "store (h ! a) i x = Inr ys"
    and h': "h' = h[a := ys]"
    by (auto split: if_splits sum.splits)
  from assms(2) PRef have na: "n \<le> a" by (simp add: fresh_val_def)
  from assms(1) a na have "list_all (fresh_val n) (h ! a)" by (simp add: region_closed_def)
  with store_set [OF ys] assms(3) have fy: "list_all (fresh_val n) ys"
    by (auto simp: list_all_iff)
  have "list_all (fresh_val n) (h' ! c)" if "n \<le> c" "c < length h'" for c
  proof (cases "c = a")
    case True
    with fy a h' show ?thesis by simp
  next
    case False
    with assms(1) that h' show ?thesis by (simp add: region_closed_def)
  qed
  then have "region_closed n h'" by (simp add: region_closed_def)
  moreover have "take n h' = take n h" using na h' by simp
  ultimately show ?thesis using h' by simp
qed (use assms(4) in auto)

lemma replace_h_fresh:
  "region_closed n h \<Longrightarrow> fresh_val n b \<Longrightarrow> fresh_val n v \<Longrightarrow> replace_h h b c v = Inr h' \<Longrightarrow>
   length h' = length h \<and> take n h' = take n h \<and> region_closed n h'"
proof (induction h b c v rule: replace_h.induct)
  case (1 h b v)
  then show ?case by simp
next
  case (2 h b first v)
  then show ?case using h_store_fresh [of n h b v first h'] by simp
next
  case (3 h b first x rest v)
  from "3.prems"(4) obtain sub where sub: "h_subscript h b first = Inr sub"
    and r: "replace_h h sub (x # rest) v = Inr h'"
    by (auto split: sum.splits)
  from h_subscript_fresh [OF "3.prems"(1,2) sub] have "fresh_val n sub" .
  from "3.IH" [OF sub "3.prems"(1) this "3.prems"(3) r] show ?case .
qed

lemma region_closed_append:
  "region_closed n h \<Longrightarrow> list_all (fresh_val n) xs \<Longrightarrow> region_closed n (h @ [xs])"
  by (auto simp: region_closed_def nth_append less_Suc_eq)

lemma region_closed_update:
  assumes "region_closed n h" and "list_all (fresh_val n) xs"
  shows "region_closed n (h[a := xs])"
  unfolding region_closed_def
proof (intro allI impI)
  fix c assume c: "n \<le> c \<and> c < length (h[a := xs])"
  show "list_all (fresh_val n) (h[a := xs] ! c)"
  proof (cases "c = a")
    case True
    with c assms(2) show ?thesis by simp
  next
    case False
    with c assms(1) show ?thesis by (simp add: region_closed_def)
  qed
qed

lemma new_board_h_fresh:
  "new_board_h h dims v = Inr (r, h') \<Longrightarrow> fresh_val n v \<Longrightarrow> region_closed n h \<Longrightarrow>
     n \<le> length h \<Longrightarrow>
     r = PRef (length h) \<and> length h < length h' \<and> take (length h) h' = h \<and> region_closed n h'"
  and fill_h_fresh:
  "fill_h h a ds v k = Inr h' \<Longrightarrow> fresh_val n v \<Longrightarrow> region_closed n h \<Longrightarrow>
     n \<le> a \<Longrightarrow> a < length h \<Longrightarrow>
     length h \<le> length h' \<and> take a h' = take a h \<and> region_closed n h'"
proof (induction h dims v and h a ds v k arbitrary: r h' and h' rule: new_board_h_fill_h.induct)
  case (1 h v)
  then show ?case by simp
next
  case (2 h d v)
  from "2.prems"(1) have r: "r = PRef (length h)" and h': "h' = h @ [replicate (nat d) v]"
    by auto
  have "list_all (fresh_val n) (replicate (nat d) v)"
    using "2.prems"(2) by (simp add: list_all_iff)
  from region_closed_append [OF "2.prems"(3) this] r h' show ?case by simp
next
  case (3 h d d' ds v)
  from "3.prems"(1) have r: "r = PRef (length h)"
    and f: "fill_h (h @ [[]]) (length h) (d' # ds) v (nat d) = Inr h'"
    by (auto split: sum.splits)
  have rc: "region_closed n (h @ [[]])"
    by (rule region_closed_append [OF "3.prems"(3)]) simp
  from "3.IH" [OF f "3.prems"(2) rc "3.prems"(4)]
  have "length (h @ [[]]) \<le> length h'" "take (length h) h' = take (length h) (h @ [[]])"
    "region_closed n h'"
    by simp_all
  with r show ?case by simp
next
  case (4 h a ds v)
  then show ?case by simp
next
  case (5 h a ds v k)
  from "5.prems"(1) obtain r1 h1 where nb: "new_board_h h ds v = Inr (r1, h1)"
    and f: "fill_h (h1[a := h1 ! a @ [r1]]) a ds v k = Inr h'"
    by (auto split: sum.splits prod.splits)
  from "5.prems"(4,5) have nh: "n \<le> length h" by simp
  from "5.IH"(1) [OF nb "5.prems"(2,3) nh]
  have r1: "r1 = PRef (length h)" and len: "length h < length h1"
    and tk: "take (length h) h1 = h" and rc1: "region_closed n h1"
    by simp_all
  have a1: "a < length h1" using "5.prems"(5) len by simp
  have "list_all (fresh_val n) (h1 ! a)"
    using rc1 a1 "5.prems"(4) by (simp add: region_closed_def)
  then have "list_all (fresh_val n) (h1 ! a @ [r1])"
    using r1 nh by (simp add: fresh_val_def)
  from region_closed_update [OF rc1 this]
  have rc2: "region_closed n (h1[a := h1 ! a @ [r1]])" .
  from "5.IH"(2) [OF nb refl f "5.prems"(2) rc2 "5.prems"(4)] a1
  have res: "length h1 \<le> length h'" "take a h' = take a (h1[a := h1 ! a @ [r1]])"
    "region_closed n h'"
    by simp_all
  have "take a h1 = take a (take (length h) h1)" using "5.prems"(5) by (simp add: min_def)
  then have "take a h1 = take a h" using tk by simp
  with res len show ?case by simp
qed

lemma render_nd_loop_fresh:
  "render_nd_loop repr g xray final h cs = Inr h' \<Longrightarrow> region_closed n h \<Longrightarrow>
   fresh_val n final \<Longrightarrow> length h' = length h \<and> take n h' = take n h \<and> region_closed n h'"
proof (induction cs arbitrary: h)
  case Nil
  then show ?case by simp
next
  case (Cons i cs)
  from Cons.prems(1) obtain s h1 where w: "replace_h h final i (PStr s) = Inr h1"
    and l: "render_nd_loop repr g xray final h1 cs = Inr h'"
    by (auto split: sum.splits if_splits)
  have "fresh_val n (PStr s)" by (simp add: fresh_val_def)
  from replace_h_fresh [OF Cons.prems(2,3) this w]
  have h1: "length h1 = length h" "take n h1 = take n h" "region_closed n h1" by simp_all
  from Cons.IH [OF l h1(3) Cons.prems(3)] h1 show ?case by simp
qed

lemma render_nd_h_frame:
  assumes "render_nd_h repr h g xray = Inr (r, h')"
  shows "take (length h) h' = h \<and> length h < length h' \<and> r = PRef (length h)"
proof -
  from assms obtain h1 cs where nb: "new_board_h h (h_dimensions g) (PStr ''0'') = Inr (r, h1)"
    and l: "render_nd_loop repr g xray r h1 cs = Inr h'"
    by (auto simp: render_nd_h_def split: sum.splits prod.splits)
  have rc: "region_closed (length h) h" by (auto simp: region_closed_def)
  have fv: "fresh_val (length h) (PStr ''0'')" by (simp add: fresh_val_def)
  from new_board_h_fresh [OF nb fv rc]
  have r: "r = PRef (length h)" and len: "length h < length h1"
    and tk: "take (length h) h1 = h" and rc1: "region_closed (length h) h1"
    by simp_all
  from r have "fresh_val (length h) r" by (simp add: fresh_val_def)
  from render_nd_loop_fresh [OF l rc1 this] tk len r show ?thesis by simp
qed

lemma subscript_store: "store xs i v = Inr ys \<Longrightarrow> subscript ys i = Inr v"
  by (auto simp: store_def subscript_def split: if_splits)

lemma set2_fresh:
  assumes "a0 < length h" and "subscript (h ! a0) row = Inr (PRef new)" and "new \<noteq> a0"
    and "n \<le> new" and "set2 h (PRef a0) row col v = Inr h1"
  shows "length h1 = length h \<and> take n h1 = take n h \<and> h1 ! a0 = h ! a0"
proof -
  from assms(1,2,5) have "h_store h (PRef new) col v = Inr h1" by (simp add: set2_def)
  then obtain ys where "new < length h" "h1 = h[new := ys]"
    by (auto split: if_splits sum.splits)
  with assms(3,4) show ?thesis by simp
qed

lemma col_loop_fresh:
  "col_loop g xray (PRef a0) row h cols = Inr h' \<Longrightarrow> a0 < length h \<Longrightarrow>
   subscript (h ! a0) row = Inr (PRef new) \<Longrightarrow> new \<noteq> a0 \<Longrightarrow> n \<le> new \<Longrightarrow>
   length h' = length h \<and> take n h' = take n h \<and> h' ! a0 = h ! a0"
proof (induction cols arbitrary: h)
  case Nil
  then show ?case by simp
next
  case (Cons col cols)
  from Cons.prems(1) obtain h1 where
    step: "h1 = h \<or> (\<exists>v. set2 h (PRef a0) row col v = Inr h1)"
    and l: "col_loop g xray (PRef a0) row h1 cols = Inr h'"
    by (auto split: sum.splits if_splits)
  from step have h1: "length h1 = length h \<and> take n h1 = take n h \<and> h1 ! a0 = h ! a0"
  proof
    assume "h1 = h"
    then show ?thesis by simp
  next
    assume "\<exists>v. set2 h (PRef a0) row col v = Inr h1"
    then obtain v where "set2 h (PRef a0) row col v = Inr h1" ..
    from set2_fresh [OF Cons.prems(2,3,4,5) this] show ?thesis .
  qed
  from Cons.IH [OF l] h1 Cons.prems(2-5) show ?case by simp
qed

lemma row_loop_fresh:
  "row_loop repr g xray (PRef a0) h rows = Inr h' \<Longrightarrow> n \<le> a0 \<Longrightarrow> a0 < length h \<Longrightarrow>
   take n h' = take n h \<and> length h \<le> length h'"
proof (induction rows arbitrary: h)
  case Nil
  then show ?case by simp
next
  case (Cons row rows)
  from Cons.prems(1) obtain elems h2 d1 h3 where
    st: "h_store (h @ [elems]) (PRef a0) row (PRef (length h)) = Inr h2"
    and cl: "col_loop g xray (PRef a0) row h2 (py_range d1) = Inr h3"
    and rl: "row_loop repr g xray (PRef a0) h3 rows = Inr h'"
    by (auto split: sum.splits list.splits simp del: h_store.simps)
  from st Cons.prems(3) obtain ys where
    ys: "store ((h @ [elems]) ! a0) row (PRef (length h)) = Inr ys"
    and h2: "h2 = (h @ [elems])[a0 := ys]"
    by (auto split: if_splits sum.splits)
  have a2: "a0 < length h2" using h2 Cons.prems(3) by simp
  have sub: "subscript (h2 ! a0) row = Inr (PRef (length h))"
    using h2 Cons.prems(3) subscript_store [OF ys] by simp
  have ne: "length h \<noteq> a0" using Cons.prems(3) by simp
  have nn: "n \<le> length h" using Cons.prems(2,3) by simp
  from col_loop_fresh [OF cl a2 sub ne nn]
  have h3: "length h3 = length h2" "take n h3 = take n h2" by simp_all
  have t2: "take n h2 = take n h" using h2 Cons.prems(2,3) by simp
  have "a0 < length h3" using h3(1) a2 by simp
  from Cons.IH [OF rl Cons.prems(2) this] h3 t2 h2 show ?case by simp
qed

lemma row_loop_string:
  "row_loop repr g xray (PStr s) h rows = Inr h' \<Longrightarrow> h' = h"
  by (cases rows) (auto split: sum.splits)

lemma render_2d_locations_h_frame:
  assumes "render_2d_locations_h repr h g xray = Inr (r, h')"
  shows "take (length h) h' = h \<and> length h \<le> length h' \<and> fresh_val (length h) r"
proof -
  from assms obtain h1 rows where sc: "shallow_copy h (h_board g) = Inr (r, h1)"
    and rl: "row_loop repr g xray r h1 rows = Inr h'"
    by (auto simp: render_2d_locations_h_def split: sum.splits prod.splits list.splits)
  show ?thesis
  proof (cases "h_board g")
    case (PRef a)
    with sc have r: "r = PRef (length h)" and h1: "h1 = h @ [h ! a]"
      by (auto split: if_splits)
    from rl r have "row_loop repr g xray (PRef (length h)) h1 rows = Inr h'" by simp
    from row_loop_fresh [OF this, of "length h"] h1 r show ?thesis
      by (simp add: fresh_val_def)
  next
    case (PStr s)
    with sc have "r = PStr s" "h1 = h" by auto
    with rl row_loop_string [of repr g xray s h rows h'] show ?thesis
      by (simp add: fresh_val_def)
  qed (use sc in auto)
qed

lemma find_val_h_prefix:
  "heap_ok h \<Longrightarrow> take (length h) h' = h \<Longrightarrow> live h v \<Longrightarrow>
   find_val_h h' v c = find_val_h h v c"
proof (induction c arbitrary: v)
  case Nil
  show ?case by simp
next
  case (Cons i c)
  have "length (take (length h) h') = length h" using Cons.prems(2) by simp
  then have len: "length h \<le> length h'" by simp
  have same: "h' ! a = h ! a" if "a < length h" for a
  proof -
    have "take (length h) h' ! a = h' ! a" using that by simp
    with Cons.prems(2) show ?thesis by simp
  qed
  have sub: "h_subscript h' v i = h_subscript h v i"
  proof (cases v)
    case (PRef a)
    with Cons.prems(3) have "a < length h" by (simp add: live_def)
    with PRef same len show ?thesis by simp
  qed simp_all
  show ?case
  proof (cases "h_subscript h v i")
    case (Inl e)
    with sub show ?thesis by simp
  next
    case (Inr x)
    have "live h x"
    proof (cases v)
      case (PRef a)
      with Cons.prems(3) have a: "a < length h" by (simp add: live_def)
      with Inr PRef have "x \<in> set (h ! a)" by (auto dest: subscript_in_set)
      moreover from a have "h ! a \<in> set h" by simp
      ultimately show ?thesis
        using Cons.prems(1) by (fastforce simp: heap_ok_def live_def list_all_iff)
    qed (use Inr in \<open>auto simp: live_def split: sum.splits\<close>)
    from Cons.IH [OF Cons.prems(1,2) this] sub Inr show ?thesis by simp
  qed
qed

lemma render_2d_board_h_frame:
  assumes "render_2d_board_h repr h g xray = Inr (art, h')"
  shows "take (length h) h' = h"
proof -
  from assms obtain r where "render_2d_locations_h repr h g xray = Inr (r, h')"
    by (auto simp: render_2d_board_h_def split: sum.splits prod.splits list.splits)
  from render_2d_locations_h_frame [OF this] show ?thesis by simp
qed

lemma game_unchanged_prefix:
  assumes "heap_ok h" and "live h (h_board g)" and "live h (h_hidden g)"
    and "take (length h) h' = h"
  shows "game_unchanged h h' g"
  unfolding game_unchanged_def
  using assms find_val_h_prefix [OF assms(1,4)] by simp

text \<open>
  Claim C10. In a well-formed store, for both values of \<^verbatim>\<open>xray\<close>, whenever
  \<^verbatim>\<open>render_nd\<close>, \<^verbatim>\<open>render_2d_locations\<close> or \<^verbatim>\<open>render_2d_board\<close> returns, every list
  object that existed before the call is the same after it, so the board and the hidden
  array of the game read as before at every coordinate; the value the first two return
  is not a list that existed before. The dictionary itself is only read: its dimensions
  and state are never assigned.
\<close>

theorem render_leaves_game_unchanged:
  assumes "heap_ok h" and "live h (h_board g)" and "live h (h_hidden g)"
  shows "(render_nd_h repr h g xray = Inr (r, h') \<or>
          render_2d_locations_h repr h g xray = Inr (r, h')
            \<longrightarrow> game_unchanged h h' g \<and> fresh_val (length h) r)
       \<and> (render_2d_board_h repr h g xray = Inr (art, h') \<longrightarrow> game_unchanged h h' g)"
proof -
  have nd: "take (length h) h' = h \<and> fresh_val (length h) r"
    if "render_nd_h repr h g xray = Inr (r, h')"
    using render_nd_h_frame [OF that] by (simp add: fresh_val_def)
  have loc: "take (length h) h' = h \<and> fresh_val (length h) r"
    if "render_2d_locations_h repr h g xray = Inr (r, h')"
    using render_2d_locations_h_frame [OF that] by simp
  have art: "take (length h) h' = h"
    if "render_2d_board_h repr h g xray = Inr (art, h')"
    using render_2d_board_h_frame [OF that] .
  from nd loc art game_unchanged_prefix [OF assms, of h'] show ?thesis by blast
qed

theorem render_leaves_game_unchanged_witness:
  "heap_ok doctest_heap \<and> live doctest_heap (h_board doctest_hgame)
   \<and> live doctest_heap (h_hidden doctest_hgame)
   \<and> render_2d_locations_h (\<lambda>h a. []) doctest_heap doctest_hgame False = Inr (PRef 6, rendered_2d)
   \<and> render_nd_h (\<lambda>h a. []) doctest_heap doctest_hgame False = Inr (PRef 6, rendered_2d)
   \<and> render_2d_board_h (\<lambda>h a. []) doctest_heap doctest_hgame False
        = Inr (''_31_'' @ [CHR 0x0A] @ ''__1_'', rendered_2d)
   \<and> game_unchanged doctest_heap rendered_2d doctest_hgame
   \<and> fresh_val (length doctest_heap) (PRef 6)"
proof -
  have a1: "heap_ok doctest_heap" by code_simp
  have a2: "live doctest_heap (h_board doctest_hgame)" by code_simp
  have a3: "live doctest_heap (h_hidden doctest_hgame)" by code_simp
  have e1: "render_2d_locations_h (\<lambda>h a. []) doctest_heap doctest_hgame False
      = Inr (PRef 6, rendered_2d)"
    by code_simp
  have e2: "render_nd_h (\<lambda>h a. []) doctest_heap doctest_hgame False = Inr (PRef 6, rendered_2d)"
    by code_simp
  have e3: "render_2d_board_h (\<lambda>h a. []) doctest_heap doctest_hgame False
      = Inr (''_31_'' @ [CHR 0x0A] @ ''__1_'', rendered_2d)"
    by code_simp
  from render_leaves_game_unchanged [OF a1 a2 a3, of "\<lambda>h a. []" False "PRef 6" rendered_2d]
    a1 a2 a3 e1 e2 e3
  show ?thesis by blast
qed

end
